theory Spec2Isabelle
  imports Main "HOL-Library.Word"
begin

section \<open>Ensemble: filtered activity (filtered\_activity.c)\<close>

text \<open>
  The filter bank of \<^verbatim>\<open>src/spinnaker_components/ensemble/filtered_activity.c\<close>: three
  globals (a filter count, a pointer to an array of parameter records, a pointer to an
  array of pointers to per-neuron state vectors), \<^verbatim>\<open>filtered_activity_initialise\<close> and
  \<^verbatim>\<open>filtered_activity_step\<close>.

  The target is a SpiNNaker core, a 32-bit ARM: \<^verbatim>\<open>size_t\<close> and pointers are 32 bits wide,
  and the byte counts handed to \<^verbatim>\<open>spin1_malloc\<close>, \<^verbatim>\<open>memcpy\<close> and \<^verbatim>\<open>memset\<close> are products
  in \<^verbatim>\<open>uint32_t\<close>.

  Memory is a list of allocated blocks; a pointer is \<open>None\<close> (NULL) or the index of a
  block, and a block is a sequence of 32-bit cells. An access outside a block, through
  NULL, or to a cell that does not hold the expected kind of value is undefined in C; the
  model returns a \<open>fault\<close> there.
\<close>

subsection \<open>Data\<close>

type_synonym uint32_t = "32 word"

text \<open>\<^verbatim>\<open>value_t\<close> is the fixed-point type of the simulation, held in one 32-bit word.\<close>

type_synonym value_t = "32 word"

type_synonym pointer = "nat option"

datatype cell = Undef | Val "32 word" | Ptr pointer

type_synonym block = "cell list"

datatype fault = NullPointer | OutOfBounds | BadCell

datatype log_line = NumFilters uint32_t | FilterLine nat value_t value_t

record bank =
  g_num_activity_filters :: uint32_t
  g_filtered_activities :: pointer
  g_activity_filter_params :: pointer
  heap :: "block list"
  io_buf :: "log_line list"

text \<open>The globals as the C file initialises them, on a given heap.\<close>

definition uninitialised :: "block list \<Rightarrow> bank" where
  "uninitialised h =
     \<lparr>g_num_activity_filters = 0, g_filtered_activities = None,
      g_activity_filter_params = None, heap = h, io_buf = []\<rparr>"

text \<open>
  Modelled from the spec: \<^verbatim>\<open>value_t\<close> and \<^verbatim>\<open>activity_filter_parameters_t\<close> are declared
  in headers that are not among the sources. A parameter record is two \<^verbatim>\<open>value_t\<close>
  fields, \<^verbatim>\<open>filter\<close> (the decay; \<open>filter_val\<close> below) then \<^verbatim>\<open>n_filter\<close> (one minus the
  decay), packed; a
  \<^verbatim>\<open>value_t\<close> and a pointer are one 32-bit word each. In memory record \<open>f\<close> of an array
  is the cells \<open>2 f\<close> and \<open>2 f + 1\<close> of its block. The sizes are in bytes; the products the
  code forms with them are computed in \<^verbatim>\<open>uint32_t\<close> and wrap.
\<close>

record activity_filter_parameters_t =
  filter_val :: value_t
  n_filter :: value_t

definition sizeof_params :: uint32_t where "sizeof_params = 8"
definition sizeof_pointer :: uint32_t where "sizeof_pointer = 4"
definition sizeof_value :: uint32_t where "sizeof_value = 4"

definition words_of :: "uint32_t \<Rightarrow> nat" where
  "words_of nbytes = unat nbytes div 4"

subsection \<open>Memory\<close>

definition bindE :: "fault + 'a \<Rightarrow> ('a \<Rightarrow> fault + 'b) \<Rightarrow> fault + 'b" where
  "bindE m k = (case m of Inl e \<Rightarrow> Inl e | Inr x \<Rightarrow> k x)"

definition load :: "block list \<Rightarrow> pointer \<Rightarrow> nat \<Rightarrow> fault + cell" where
  "load h p i =
     (case p of
        None \<Rightarrow> Inl NullPointer
      | Some b \<Rightarrow> if b < length h \<and> i < length (h ! b) then Inr (h ! b ! i) else Inl OutOfBounds)"

definition load_val :: "block list \<Rightarrow> pointer \<Rightarrow> nat \<Rightarrow> fault + value_t" where
  "load_val h p i =
     bindE (load h p i) (\<lambda>c. case c of Val v \<Rightarrow> Inr v | _ \<Rightarrow> Inl BadCell)"

definition load_ptr :: "block list \<Rightarrow> pointer \<Rightarrow> nat \<Rightarrow> fault + pointer" where
  "load_ptr h p i =
     bindE (load h p i) (\<lambda>c. case c of Ptr q \<Rightarrow> Inr q | _ \<Rightarrow> Inl BadCell)"

definition store :: "block list \<Rightarrow> pointer \<Rightarrow> nat \<Rightarrow> cell \<Rightarrow> fault + block list" where
  "store h p i c =
     (case p of
        None \<Rightarrow> Inl NullPointer
      | Some b \<Rightarrow> if b < length h \<and> i < length (h ! b)
                  then Inr (h[b := (h ! b)[i := c]]) else Inl OutOfBounds)"

text \<open>
  Modelled from the spec: \<^verbatim>\<open>spin1_malloc\<close>, the platform primitive "allocate N bytes or
  signal failure". Whether a call succeeds is decided outside this file, so it is an
  argument; a successful call returns a new block of uninitialised cells.
\<close>

definition spin1_malloc :: "bool \<Rightarrow> uint32_t \<Rightarrow> block list \<Rightarrow> pointer \<times> block list" where
  "spin1_malloc ok nbytes h =
     (if ok then (Some (length h), h @ [replicate (words_of nbytes) Undef]) else (None, h))"

definition memcpy :: "block list \<Rightarrow> pointer \<Rightarrow> (nat \<Rightarrow> uint32_t) \<Rightarrow> uint32_t \<Rightarrow> fault + block list" where
  "memcpy h dst src nbytes =
     (case dst of
        None \<Rightarrow> Inl NullPointer
      | Some b \<Rightarrow>
          if b < length h \<and> words_of nbytes \<le> length (h ! b)
          then Inr (h[b := map (\<lambda>i. Val (src i)) [0..<words_of nbytes] @ drop (words_of nbytes) (h ! b)])
          else Inl OutOfBounds)"

definition memset0 :: "block list \<Rightarrow> pointer \<Rightarrow> uint32_t \<Rightarrow> fault + block list" where
  "memset0 h dst nbytes =
     (case dst of
        None \<Rightarrow> Inl NullPointer
      | Some b \<Rightarrow>
          if b < length h \<and> words_of nbytes \<le> length (h ! b)
          then Inr (h[b := replicate (words_of nbytes) (Val 0) @ drop (words_of nbytes) (h ! b)])
          else Inl OutOfBounds)"

subsection \<open>filtered\_activity\_initialise\<close>

text \<open>
  \<open>alloc_ok k\<close> says whether the \<open>k\<close>-th call of \<^verbatim>\<open>spin1_malloc\<close> made by initialise
  succeeds: call 0 is the parameter array, call 1 the array of state pointers, call
  \<open>2 + f\<close> the state vector of filter \<open>f\<close>. \<open>address\<close> is the configuration region,
  indexed by word.

  Modelled from the spec: the macro \<^verbatim>\<open>MALLOC_FAIL_FALSE(VAR, SIZE)\<close> is defined in a header
  that is not among the sources; it assigns the result of \<^verbatim>\<open>spin1_malloc(SIZE)\<close> to
  \<^verbatim>\<open>VAR\<close> and makes the function return false when the result is NULL. What it may print
  on failure is not modelled. \<^verbatim>\<open>io_printf\<close> appends a line to the trace; its arguments
  are read from memory before the line is written.
\<close>

function init_loop :: "(nat \<Rightarrow> bool) \<Rightarrow> uint32_t \<Rightarrow> nat \<Rightarrow> bank \<Rightarrow> fault + (bool \<times> bank)" where
  "init_loop alloc_ok n_neurons f s =
     (if f < unat (g_num_activity_filters s) then
        (case load_val (heap s) (g_activity_filter_params s) (2 * f) of
           Inl e \<Rightarrow> Inl e
         | Inr flt \<Rightarrow>
        (case load_val (heap s) (g_activity_filter_params s) (2 * f + 1) of
           Inl e \<Rightarrow> Inl e
         | Inr nflt \<Rightarrow>
        (case spin1_malloc (alloc_ok (2 + f)) (n_neurons * sizeof_value) (heap s) of
           (p, h1) \<Rightarrow>
        (case store h1 (g_filtered_activities s) f (Ptr p) of
           Inl e \<Rightarrow> Inl e
         | Inr h2 \<Rightarrow>
             if p = None
             then Inr (False, s\<lparr>heap := h2, io_buf := io_buf s @ [FilterLine f flt nflt]\<rparr>)
             else
               (case memset0 h2 p (n_neurons * sizeof_value) of
                  Inl e \<Rightarrow> Inl e
                | Inr h3 \<Rightarrow>
                    init_loop alloc_ok n_neurons (f + 1)
                      (s\<lparr>heap := h3, io_buf := io_buf s @ [FilterLine f flt nflt]\<rparr>))))))
      else Inr (True, s))"
  by pat_completeness auto
termination
proof (relation "measure (\<lambda>(alloc_ok, n_neurons, f, s). 2 ^ 32 - f)", goal_cases)
  case 1
  show ?case by simp
next
  case (2 alloc_ok n_neurons f s)
  have "unat (g_num_activity_filters s) < 2 ^ 32"
    using unsigned_less [of "g_num_activity_filters s", where ?'a = nat] by simp
  with 2(1) show ?case by simp
qed

declare init_loop.simps [simp del]

definition filtered_activity_initialise ::
  "(nat \<Rightarrow> bool) \<Rightarrow> (nat \<Rightarrow> uint32_t) \<Rightarrow> uint32_t \<Rightarrow> bank \<Rightarrow> fault + (bool \<times> bank)" where
  "filtered_activity_initialise alloc_ok address n_neurons s0 =
     (let s1 = s0\<lparr>g_num_activity_filters := address 0\<rparr>;
          s2 = s1\<lparr>io_buf := io_buf s1 @ [NumFilters (g_num_activity_filters s1)]\<rparr>
      in
      if g_num_activity_filters s2 > 0 then
        (case spin1_malloc (alloc_ok 0) (g_num_activity_filters s2 * sizeof_params) (heap s2) of
           (p, h1) \<Rightarrow>
             let s3 = s2\<lparr>g_activity_filter_params := p, heap := h1\<rparr> in
             if p = None then Inr (False, s3)
             else
        (case spin1_malloc (alloc_ok 1) (g_num_activity_filters s3 * sizeof_pointer) (heap s3) of
           (q, h2) \<Rightarrow>
             let s4 = s3\<lparr>g_filtered_activities := q, heap := h2\<rparr> in
             if q = None then Inr (False, s4)
             else
        (case memcpy (heap s4) (g_activity_filter_params s4) (\<lambda>i. address (1 + i))
                (g_num_activity_filters s4 * sizeof_params) of
           Inl e \<Rightarrow> Inl e
         | Inr h3 \<Rightarrow> init_loop alloc_ok n_neurons 0 (s4\<lparr>heap := h3\<rparr>))))
      else Inr (True, s2))"

subsection \<open>filtered\_activity\_step\<close>

text \<open>
  \<open>mul\<close> is the multiplication of \<^verbatim>\<open>value_t\<close> (the compiler's fixed-point product); the
  statement \<^verbatim>\<open>g_filtered_activities[f][n] *= g_activity_filter_params[f].filter\<close> reads the
  state pointer of filter \<open>f\<close>, the entry, and the \<^verbatim>\<open>filter\<close> field, and writes the entry.
\<close>

definition step_body :: "(value_t \<Rightarrow> value_t \<Rightarrow> value_t) \<Rightarrow> nat \<Rightarrow> nat \<Rightarrow> bank \<Rightarrow> fault + bank" where
  "step_body mul f n s =
     bindE (load_ptr (heap s) (g_filtered_activities s) f) (\<lambda>p.
     bindE (load_val (heap s) p n) (\<lambda>v.
     bindE (load_val (heap s) (g_activity_filter_params s) (2 * f)) (\<lambda>d.
     bindE (store (heap s) p n (Val (mul v d))) (\<lambda>h.
     Inr (s\<lparr>heap := h\<rparr>)))))"

function neuron_loop ::
  "(value_t \<Rightarrow> value_t \<Rightarrow> value_t) \<Rightarrow> uint32_t \<Rightarrow> nat \<Rightarrow> nat \<Rightarrow> bank \<Rightarrow> fault + bank" where
  "neuron_loop mul n_neurons f n s =
     (if n < unat n_neurons then
        (case step_body mul f n s of
           Inl e \<Rightarrow> Inl e
         | Inr s' \<Rightarrow> neuron_loop mul n_neurons f (n + 1) s')
      else Inr s)"
  by pat_completeness auto
termination
  by (relation "measure (\<lambda>(mul, n_neurons, f, n, s). unat n_neurons - n)") auto

declare neuron_loop.simps [simp del]

function filter_loop ::
  "(value_t \<Rightarrow> value_t \<Rightarrow> value_t) \<Rightarrow> uint32_t \<Rightarrow> nat \<Rightarrow> bank \<Rightarrow> fault + bank" where
  "filter_loop mul n_neurons f s =
     (if f < unat (g_num_activity_filters s) then
        (case neuron_loop mul n_neurons f 0 s of
           Inl e \<Rightarrow> Inl e
         | Inr s' \<Rightarrow> filter_loop mul n_neurons (f + 1) s')
      else Inr s)"
  by pat_completeness auto
termination
proof (relation "measure (\<lambda>(mul, n_neurons, f, s). 2 ^ 32 - f)", goal_cases)
  case 1
  show ?case by simp
next
  case (2 mul n_neurons f s)
  have "unat (g_num_activity_filters s) < 2 ^ 32"
    using unsigned_less [of "g_num_activity_filters s", where ?'a = nat] by simp
  with 2(1) show ?case by simp
qed

declare filter_loop.simps [simp del]

definition filtered_activity_step ::
  "(value_t \<Rightarrow> value_t \<Rightarrow> value_t) \<Rightarrow> uint32_t \<Rightarrow> bank \<Rightarrow> fault + bank" where
  "filtered_activity_step mul n_neurons s = filter_loop mul n_neurons 0 s"

subsection \<open>Running several steps\<close>

text \<open>\<open>k\<close> consecutive calls of step, with nothing else touching the bank in between.\<close>

fun run_steps ::
  "(value_t \<Rightarrow> value_t \<Rightarrow> value_t) \<Rightarrow> uint32_t \<Rightarrow> nat \<Rightarrow> bank \<Rightarrow> fault + bank" where
  "run_steps mul n_neurons 0 s = Inr s"
| "run_steps mul n_neurons (Suc k) s =
     (case filtered_activity_step mul n_neurons s of
        Inl e \<Rightarrow> Inl e
      | Inr s' \<Rightarrow> run_steps mul n_neurons k s')"

subsection \<open>Reading the bank\<close>

text \<open>
  What a consumer reads: \<^verbatim>\<open>g_filtered_activities[f]\<close>, \<^verbatim>\<open>g_filtered_activities[f][n]\<close>,
  and the two fields of \<^verbatim>\<open>g_activity_filter_params[f]\<close>; \<open>None\<close> where the read is
  not defined.
\<close>

definition state_vector :: "bank \<Rightarrow> nat \<Rightarrow> nat option" where
  "state_vector s f =
     (case load_ptr (heap s) (g_filtered_activities s) f of
        Inr (Some b) \<Rightarrow> if b < length (heap s) then Some b else None
      | _ \<Rightarrow> None)"

definition read_state :: "bank \<Rightarrow> nat \<Rightarrow> nat \<Rightarrow> value_t option" where
  "read_state s f n =
     (case load_ptr (heap s) (g_filtered_activities s) f of
        Inr p \<Rightarrow> (case load_val (heap s) p n of Inr v \<Rightarrow> Some v | Inl e \<Rightarrow> None)
      | Inl e \<Rightarrow> None)"

definition read_filter :: "bank \<Rightarrow> nat \<Rightarrow> value_t option" where
  "read_filter s f =
     (case load_val (heap s) (g_activity_filter_params s) (2 * f) of
        Inr v \<Rightarrow> Some v
      | Inl e \<Rightarrow> None)"

definition read_n_filter :: "bank \<Rightarrow> nat \<Rightarrow> value_t option" where
  "read_n_filter s f =
     (case load_val (heap s) (g_activity_filter_params s) (2 * f + 1) of
        Inr v \<Rightarrow> Some v
      | Inl e \<Rightarrow> None)"

definition read_params :: "bank \<Rightarrow> nat \<Rightarrow> activity_filter_parameters_t option" where
  "read_params s f =
     (case (read_filter s f, read_n_filter s f) of
        (Some d, Some nd) \<Rightarrow> Some \<lparr>filter_val = d, n_filter = nd\<rparr>
      | _ \<Rightarrow> None)"

text \<open>
  A bank on which step may be called with \<open>n\<close> neurons: every filter below the count
  has a readable \<^verbatim>\<open>filter\<close> field and a state vector of its own (not shared with another
  filter, and neither the parameter array nor the pointer array) with at least \<open>n\<close>
  readable entries.
\<close>

definition valid_bank :: "nat \<Rightarrow> bank \<Rightarrow> bool" where
  "valid_bank n s =
     (\<forall>f \<in> {0..<unat (g_num_activity_filters s)}.
        read_filter s f \<noteq> None \<and>
        state_vector s f \<noteq> None \<and>
        state_vector s f \<noteq> g_filtered_activities s \<and>
        state_vector s f \<noteq> g_activity_filter_params s \<and>
        (\<forall>i \<in> {0..<n}. read_state s f i \<noteq> None) \<and>
        (\<forall>f' \<in> {0..<f}. state_vector s f' \<noteq> state_vector s f))"

text \<open>
  The banks on which step is called: the bank a successful initialise leaves for \<open>N\<close>
  neurons, \<open>N * sizeof(value_t)\<close> not wrapping (\<open>N < 2 ^ 30\<close>), then any sequence of steps
  with at most \<open>N\<close> neurons and of writes of a value to one of the first \<open>N\<close> entries
  of a state vector (the injection of activity, done outside this file).
\<close>

inductive after_initialise ::
  "(value_t \<Rightarrow> value_t \<Rightarrow> value_t) \<Rightarrow> uint32_t \<Rightarrow> bank \<Rightarrow> bool"
  for mul :: "value_t \<Rightarrow> value_t \<Rightarrow> value_t" and N :: uint32_t where
  initialised:
    "filtered_activity_initialise alloc_ok address N s0 = Inr (True, s) \<Longrightarrow>
     unat N < 2 ^ 30 \<Longrightarrow>
     after_initialise mul N s"
| stepped:
    "after_initialise mul N s \<Longrightarrow> unat n_neurons \<le> unat N \<Longrightarrow>
     filtered_activity_step mul n_neurons s = Inr s' \<Longrightarrow>
     after_initialise mul N s'"
| written:
    "after_initialise mul N s \<Longrightarrow> f < unat (g_num_activity_filters s) \<Longrightarrow>
     state_vector s f = Some b \<Longrightarrow> n < unat N \<Longrightarrow>
     after_initialise mul N (s\<lparr>heap := (heap s)[b := (heap s ! b)[n := Val v]]\<rparr>)"

text \<open>
  Modelled from the spec: the multiplication of \<^verbatim>\<open>value_t\<close> is the compiler's fixed-point
  product, which the sources do not define; step takes it as the argument \<open>mul\<close>, and the
  theorems hold for any \<open>mul\<close>. \<open>accum_mul\<close> is an instance for the examples: signed
  fixed point with 15 fractional bits, the exact product shifted right by 15 and
  truncated to 32 bits.
\<close>

definition accum_mul :: "value_t \<Rightarrow> value_t \<Rightarrow> value_t" where
  "accum_mul a b = word_of_int ((sint a * sint b) div 2 ^ 15)"

subsection \<open>The loops in closed form\<close>

text \<open>
  What the inner loop of step leaves in one state vector (entries \<open>lo\<close> up to \<open>hi\<close>
  multiplied by \<open>d\<close>), and what the outer loop leaves in the heap from filter \<open>f0\<close> on.
\<close>

definition scale_cell :: "(value_t \<Rightarrow> value_t \<Rightarrow> value_t) \<Rightarrow> value_t \<Rightarrow> cell \<Rightarrow> cell" where
  "scale_cell mul d c = (case c of Val v \<Rightarrow> Val (mul v d) | _ \<Rightarrow> c)"

definition decay_cells ::
  "(value_t \<Rightarrow> value_t \<Rightarrow> value_t) \<Rightarrow> value_t \<Rightarrow> nat \<Rightarrow> nat \<Rightarrow> block \<Rightarrow> block" where
  "decay_cells mul d lo hi blk =
     map (\<lambda>i. if lo \<le> i \<and> i < hi then scale_cell mul d (blk ! i) else blk ! i) [0..<length blk]"

definition decay_filter ::
  "(value_t \<Rightarrow> value_t \<Rightarrow> value_t) \<Rightarrow> nat \<Rightarrow> bank \<Rightarrow> nat \<Rightarrow> block list \<Rightarrow> block list" where
  "decay_filter mul n s f h =
     (case (state_vector s f, read_filter s f) of
        (Some b, Some d) \<Rightarrow> h[b := decay_cells mul d 0 n (h ! b)]
      | _ \<Rightarrow> h)"

definition step_heap ::
  "(value_t \<Rightarrow> value_t \<Rightarrow> value_t) \<Rightarrow> nat \<Rightarrow> bank \<Rightarrow> nat \<Rightarrow> block list" where
  "step_heap mul n s f0 =
     fold (decay_filter mul n s) [f0..<unat (g_num_activity_filters s)] (heap s)"

text \<open>The precondition of the outer loop from filter \<open>f0\<close> on.\<close>

definition ready_from :: "nat \<Rightarrow> bank \<Rightarrow> nat \<Rightarrow> bool" where
  "ready_from n s f0 =
     (\<forall>f. f0 \<le> f \<and> f < unat (g_num_activity_filters s) \<longrightarrow>
        (\<exists>b d. state_vector s f = Some b \<and> read_filter s f = Some d \<and>
           Some b \<noteq> g_filtered_activities s \<and> Some b \<noteq> g_activity_filter_params s \<and>
           (\<forall>i<n. i < length (heap s ! b) \<and> (\<exists>v. heap s ! b ! i = Val v)) \<and>
           (\<forall>f'. f0 \<le> f' \<and> f' < f \<longrightarrow> state_vector s f' \<noteq> Some b)))"

text \<open>
  The heap while the loop of initialise runs: \<open>H\<close> is the heap at loop entry, \<open>ab\<close> the
  block of state pointers; after \<open>f\<close> successful iterations the first \<open>f\<close> pointers are
  set and \<open>f\<close> zeroed vectors of \<open>m\<close> entries follow \<open>H\<close>. \<open>loop_entry\<close> is the bank
  when both arrays are allocated and the parameters copied.
\<close>

definition init_heap :: "block list \<Rightarrow> nat \<Rightarrow> nat \<Rightarrow> nat \<Rightarrow> block list" where
  "init_heap H ab m f =
     H[ab := map (\<lambda>i. Ptr (Some (length H + i))) [0..<f] @ drop f (H ! ab)]
       @ replicate f (replicate m (Val 0))"

definition params_block :: "(nat \<Rightarrow> uint32_t) \<Rightarrow> block" where
  "params_block address =
     map (\<lambda>i. Val (address (1 + i))) [0..<words_of (address 0 * sizeof_params)]"

definition loop_entry :: "(nat \<Rightarrow> uint32_t) \<Rightarrow> bank \<Rightarrow> bank" where
  "loop_entry address s0 =
     s0\<lparr>g_num_activity_filters := address 0,
        io_buf := io_buf s0 @ [NumFilters (address 0)],
        g_activity_filter_params := Some (length (heap s0)),
        g_filtered_activities := Some (Suc (length (heap s0))),
        heap := heap s0 @ [params_block address,
                          replicate (words_of (address 0 * sizeof_pointer)) Undef]\<rparr>"

text \<open>The heap a successful initialise leaves.\<close>

definition final_heap :: "(nat \<Rightarrow> uint32_t) \<Rightarrow> uint32_t \<Rightarrow> bank \<Rightarrow> block list" where
  "final_heap address N s0 =
     init_heap (heap (loop_entry address s0)) (Suc (length (heap s0)))
       (words_of (N * sizeof_value)) (unat (address 0))"

text \<open>
  The number of allocations initialise asks for, and how many of the first \<open>n\<close> requests
  are granted before the first refusal.
\<close>

definition n_allocs :: "(nat \<Rightarrow> uint32_t) \<Rightarrow> nat" where
  "n_allocs address = (if address 0 = 0 then 0 else 2 + unat (address 0))"

definition granted :: "(nat \<Rightarrow> bool) \<Rightarrow> nat \<Rightarrow> nat" where
  "granted ok n = length (takeWhile ok [0..<n])"

subsection \<open>Example banks\<close>

text \<open>
  The scenario of the specification: two filters with decay 0.5 and 0.9, three neurons,
  in the fixed-point representation with 15 fractional bits (0.5 is 16384, 0.9 is 29491,
  10 is 327680). \<open>scenario_start\<close> is the bank initialise leaves, \<open>scenario_bank\<close> the
  same bank once both state vectors hold 10, 20, 30; \<open>scenario_twin\<close> differs from it in
  the \<^verbatim>\<open>n_filter\<close> fields only, and \<open>scenario_other\<close> agrees with it on entry 2 of
  filter 1 and on the decay of filter 1 and on little else. \<open>scenario_failed\<close> is the bank
  left when the fourth allocation is refused. \<open>overflow_bank\<close> is the bank initialise
  leaves for one filter and \<open>2 ^ 30 + 1\<close> neurons.
\<close>

definition all_ok :: "nat \<Rightarrow> bool" where
  "all_ok k = True"

definition refuse_fourth :: "nat \<Rightarrow> bool" where
  "refuse_fourth k = (k \<noteq> 3)"

definition scenario_config :: "nat \<Rightarrow> uint32_t" where
  "scenario_config i =
     (if i = 0 then 2 else if i = 1 then 16384 else if i = 2 then 16384
      else if i = 3 then 29491 else if i = 4 then 3277 else 0)"

definition scenario_start :: bank where
  "scenario_start =
     \<lparr>g_num_activity_filters = 2, g_filtered_activities = Some 1,
      g_activity_filter_params = Some 0,
      heap = [[Val 16384, Val 16384, Val 29491, Val 3277],
              [Ptr (Some 2), Ptr (Some 3)],
              [Val 0, Val 0, Val 0],
              [Val 0, Val 0, Val 0]],
      io_buf = [NumFilters 2, FilterLine 0 16384 16384, FilterLine 1 29491 3277]\<rparr>"

definition scenario_bank :: bank where
  "scenario_bank =
     scenario_start\<lparr>heap := [[Val 16384, Val 16384, Val 29491, Val 3277],
              [Ptr (Some 2), Ptr (Some 3)],
              [Val 327680, Val 655360, Val 983040],
              [Val 327680, Val 655360, Val 983040]]\<rparr>"

definition scenario_twin :: bank where
  "scenario_twin =
     scenario_start\<lparr>heap := [[Val 16384, Val 0, Val 29491, Val 12345],
              [Ptr (Some 2), Ptr (Some 3)],
              [Val 327680, Val 655360, Val 983040],
              [Val 327680, Val 655360, Val 983040]]\<rparr>"

definition scenario_other :: bank where
  "scenario_other =
     scenario_start\<lparr>heap := [[Val 8192, Val 24576, Val 29491, Val 3277],
              [Ptr (Some 3), Ptr (Some 2)],
              [Val 32768, Val 65536, Val 983040],
              [Val 1, Val 2, Val 3]]\<rparr>"

definition scenario_failed :: bank where
  "scenario_failed =
     \<lparr>g_num_activity_filters = 2, g_filtered_activities = Some 1,
      g_activity_filter_params = Some 0,
      heap = [[Val 16384, Val 16384, Val 29491, Val 3277],
              [Ptr (Some 2), Ptr None],
              [Val 0, Val 0, Val 0]],
      io_buf = [NumFilters 2, FilterLine 0 16384 16384, FilterLine 1 29491 3277]\<rparr>"

definition empty_config :: "nat \<Rightarrow> uint32_t" where
  "empty_config i = 0"

definition one_filter_config :: "nat \<Rightarrow> uint32_t" where
  "one_filter_config i = (if i = 0 then 1 else 16384)"

definition overflow_bank :: bank where
  "overflow_bank =
     \<lparr>g_num_activity_filters = 1, g_filtered_activities = Some 1,
      g_activity_filter_params = Some 0,
      heap = [[Val 16384, Val 16384], [Ptr (Some 2)], [Val 0]],
      io_buf = [NumFilters 1, FilterLine 0 16384 16384]\<rparr>"

section \<open>Properties of step\<close>

lemma length_decay_cells [simp]: "length (decay_cells mul d lo hi blk) = length blk"
  by (simp add: decay_cells_def)

lemma nth_decay_cells:
  "i < length blk \<Longrightarrow>
   decay_cells mul d lo hi blk ! i =
     (if lo \<le> i \<and> i < hi then scale_cell mul d (blk ! i) else blk ! i)"
  by (simp add: decay_cells_def)

lemma decay_cells_empty: "hi \<le> lo \<Longrightarrow> decay_cells mul d lo hi blk = blk"
  by (rule nth_equalityI) (auto simp: nth_decay_cells)

lemma decay_cells_step:
  assumes "n < length blk" "blk ! n = Val v" "n < hi"
  shows "decay_cells mul d (Suc n) hi (blk[n := Val (mul v d)]) = decay_cells mul d n hi blk"
  using assms
  by (intro nth_equalityI) (auto simp: nth_decay_cells nth_list_update scale_cell_def)

lemma step_body_run:
  assumes "g_filtered_activities s = Some ab" "ab < length (heap s)" "f < length (heap s ! ab)"
    and "heap s ! ab ! f = Ptr (Some b)"
    and "g_activity_filter_params s = Some pb" "pb < length (heap s)"
    and "2 * f < length (heap s ! pb)" "heap s ! pb ! (2 * f) = Val d"
    and "b < length (heap s)" "n < length (heap s ! b)" "heap s ! b ! n = Val v"
  shows "step_body mul f n s = Inr (s\<lparr>heap := (heap s)[b := (heap s ! b)[n := Val (mul v d)]]\<rparr>)"
  using assms by (simp add: step_body_def load_ptr_def load_val_def load_def store_def bindE_def)

lemma neuron_loop_run:
  assumes "g_filtered_activities s = Some ab" "ab < length (heap s)" "f < length (heap s ! ab)"
    and "heap s ! ab ! f = Ptr (Some b)" "b \<noteq> ab"
    and "g_activity_filter_params s = Some pb" "pb < length (heap s)"
    and "2 * f < length (heap s ! pb)" "heap s ! pb ! (2 * f) = Val d" "b \<noteq> pb"
    and "\<forall>i. n \<le> i \<and> i < unat N \<longrightarrow>
           b < length (heap s) \<and> i < length (heap s ! b) \<and> (\<exists>v. heap s ! b ! i = Val v)"
  shows "neuron_loop mul N f n s =
           Inr (s\<lparr>heap := (heap s)[b := decay_cells mul d n (unat N) (heap s ! b)]\<rparr>)"
  using assms
proof (induction "unat N - n" arbitrary: n s)
  case 0
  then have "unat N \<le> n" by simp
  then show ?case
    by (subst neuron_loop.simps) (simp add: decay_cells_empty)
next
  case (Suc k)
  then have lt: "n < unat N" by simp
  from Suc.prems(11) lt obtain v where
    b: "b < length (heap s)" "n < length (heap s ! b)" "heap s ! b ! n = Val v"
    by (meson le_refl)
  let ?s1 = "s\<lparr>heap := (heap s)[b := (heap s ! b)[n := Val (mul v d)]]\<rparr>"
  have body: "step_body mul f n s = Inr ?s1"
    using Suc.prems b by (intro step_body_run) auto
  have k: "k = unat N - Suc n" using Suc.hyps(2) by simp
  have rest: "neuron_loop mul N f (Suc n) ?s1 =
      Inr (?s1\<lparr>heap := (heap ?s1)[b := decay_cells mul d (Suc n) (unat N) (heap ?s1 ! b)]\<rparr>)"
  proof (rule Suc.hyps(1) [OF k])
    show "\<forall>i. Suc n \<le> i \<and> i < unat N \<longrightarrow>
           b < length (heap ?s1) \<and> i < length (heap ?s1 ! b) \<and> (\<exists>v. heap ?s1 ! b ! i = Val v)"
      using Suc.prems(11) b by (auto simp: nth_list_update)
  qed (use Suc.prems b in \<open>auto simp: nth_list_update\<close>)
  show ?case
    using lt body rest b
    by (subst neuron_loop.simps) (simp add: decay_cells_step)
qed

lemma state_vector_SomeD:
  assumes "state_vector s f = Some b"
  shows "\<exists>ab. g_filtered_activities s = Some ab \<and> ab < length (heap s) \<and>
           f < length (heap s ! ab) \<and> heap s ! ab ! f = Ptr (Some b) \<and> b < length (heap s)"
  using assms
  by (auto simp: state_vector_def load_ptr_def load_def bindE_def
           split: option.splits sum.splits if_splits cell.splits)

lemma read_filter_SomeD:
  assumes "read_filter s f = Some d"
  shows "\<exists>pb. g_activity_filter_params s = Some pb \<and> pb < length (heap s) \<and>
           2 * f < length (heap s ! pb) \<and> heap s ! pb ! (2 * f) = Val d"
  using assms
  by (auto simp: read_filter_def load_val_def load_def bindE_def
           split: option.splits sum.splits if_splits cell.splits)

lemma read_state_SomeD:
  assumes "read_state s f i = Some v" "state_vector s f = Some b"
  shows "i < length (heap s ! b) \<and> heap s ! b ! i = Val v"
  using assms
  by (auto simp: read_state_def state_vector_def load_ptr_def load_val_def load_def bindE_def
           split: option.splits sum.splits if_splits cell.splits)

lemma read_state_eq:
  assumes "state_vector s f = Some b"
  shows "read_state s f i =
           (if i < length (heap s ! b) then (case heap s ! b ! i of Val v \<Rightarrow> Some v | _ \<Rightarrow> None) else None)"
  using assms
  by (auto simp: read_state_def state_vector_def load_ptr_def load_val_def load_def bindE_def
           split: option.splits sum.splits if_splits cell.splits)

lemma valid_bankD:
  assumes "valid_bank n s" "f < unat (g_num_activity_filters s)"
  shows "\<exists>b d. state_vector s f = Some b \<and> read_filter s f = Some d \<and>
           Some b \<noteq> g_filtered_activities s \<and> Some b \<noteq> g_activity_filter_params s \<and>
           (\<forall>i<n. i < length (heap s ! b) \<and> (\<exists>v. heap s ! b ! i = Val v)) \<and>
           (\<forall>f'<f. state_vector s f' \<noteq> Some b)"
proof -
  from assms have f: "read_filter s f \<noteq> None" "state_vector s f \<noteq> None"
      "state_vector s f \<noteq> g_filtered_activities s"
      "state_vector s f \<noteq> g_activity_filter_params s"
      "\<forall>i<n. read_state s f i \<noteq> None"
      "\<forall>f'<f. state_vector s f' \<noteq> state_vector s f"
    by (auto simp: valid_bank_def)
  then obtain b d where bd: "state_vector s f = Some b" "read_filter s f = Some d" by auto
  have "\<forall>i<n. i < length (heap s ! b) \<and> (\<exists>v. heap s ! b ! i = Val v)"
    using f(5) read_state_SomeD [OF _ bd(1)] by (metis not_None_eq)
  with f bd show ?thesis by auto
qed


lemma valid_bank_ready: "valid_bank n s \<Longrightarrow> ready_from n s 0"
  unfolding ready_from_def using valid_bankD by blast

lemma state_vector_cong:
  assumes "length H = length (heap s)"
    and "\<And>ab. g_filtered_activities s = Some ab \<Longrightarrow> H ! ab = heap s ! ab"
  shows "state_vector (s\<lparr>heap := H\<rparr>) f = state_vector s f"
  using assms
  by (auto simp: state_vector_def load_ptr_def load_def bindE_def
           split: option.splits sum.splits cell.splits)

lemma read_filter_cong:
  assumes "length H = length (heap s)"
    and "\<And>pb. g_activity_filter_params s = Some pb \<Longrightarrow> H ! pb = heap s ! pb"
  shows "read_filter (s\<lparr>heap := H\<rparr>) f = read_filter s f"
  using assms
  by (auto simp: read_filter_def load_val_def load_def bindE_def split: option.splits)


lemma decay_filter_cong:
  assumes "length H = length (heap s)"
    and "\<And>ab. g_filtered_activities s = Some ab \<Longrightarrow> H ! ab = heap s ! ab"
    and "\<And>pb. g_activity_filter_params s = Some pb \<Longrightarrow> H ! pb = heap s ! pb"
  shows "decay_filter mul n (s\<lparr>heap := H\<rparr>) = decay_filter mul n s"
  by (intro ext) (simp add: decay_filter_def state_vector_cong [OF assms(1,2)]
        read_filter_cong [OF assms(1,3)])

lemma filter_loop_run:
  assumes "ready_from (unat N) s f0"
  shows "filter_loop mul N f0 s = Inr (s\<lparr>heap := step_heap mul (unat N) s f0\<rparr>)"
  using assms
proof (induction "unat (g_num_activity_filters s) - f0" arbitrary: f0 s)
  case 0
  then have "unat (g_num_activity_filters s) \<le> f0" by simp
  then show ?case
    by (subst filter_loop.simps) (simp add: step_heap_def)
next
  case (Suc k)
  let ?F = "unat (g_num_activity_filters s)"
  let ?n = "unat N"
  from Suc.hyps(2) have lt: "f0 < ?F" by simp
  from Suc.prems lt obtain b d where
    bd: "state_vector s f0 = Some b" "read_filter s f0 = Some d"
      "Some b \<noteq> g_filtered_activities s" "Some b \<noteq> g_activity_filter_params s"
      "\<forall>i<?n. i < length (heap s ! b) \<and> (\<exists>v. heap s ! b ! i = Val v)"
    unfolding ready_from_def by (meson le_refl)
  from state_vector_SomeD [OF bd(1)] obtain ab where
    ab: "g_filtered_activities s = Some ab" "ab < length (heap s)" "f0 < length (heap s ! ab)"
      "heap s ! ab ! f0 = Ptr (Some b)" "b < length (heap s)"
    by blast
  from read_filter_SomeD [OF bd(2)] obtain pb where
    pb: "g_activity_filter_params s = Some pb" "pb < length (heap s)"
      "2 * f0 < length (heap s ! pb)" "heap s ! pb ! (2 * f0) = Val d"
    by blast
  let ?H1 = "(heap s)[b := decay_cells mul d 0 ?n (heap s ! b)]"
  let ?s1 = "s\<lparr>heap := ?H1\<rparr>"
  have inner: "neuron_loop mul N f0 0 s = Inr ?s1"
    using ab pb bd
    by (intro neuron_loop_run [where ab = ab and pb = pb and b = b and d = d]) auto
  have len: "length ?H1 = length (heap s)" by simp
  have keep_ab: "\<And>a. g_filtered_activities s = Some a \<Longrightarrow> ?H1 ! a = heap s ! a"
    using bd(3) by auto
  have keep_pb: "\<And>a. g_activity_filter_params s = Some a \<Longrightarrow> ?H1 ! a = heap s ! a"
    using bd(4) by auto
  have sv: "\<And>f. state_vector ?s1 f = state_vector s f"
    by (rule state_vector_cong [OF len keep_ab])
  have rf: "\<And>f. read_filter ?s1 f = read_filter s f"
    by (rule read_filter_cong [OF len keep_pb])
  have ready1: "ready_from ?n ?s1 (Suc f0)"
    unfolding ready_from_def
  proof (intro allI impI)
    fix f assume f: "Suc f0 \<le> f \<and> f < unat (g_num_activity_filters ?s1)"
    then have f': "f0 \<le> f \<and> f < ?F" by simp
    from Suc.prems f' obtain b' d' where
      b': "state_vector s f = Some b'" "read_filter s f = Some d'"
        "Some b' \<noteq> g_filtered_activities s" "Some b' \<noteq> g_activity_filter_params s"
        "\<forall>i<?n. i < length (heap s ! b') \<and> (\<exists>v. heap s ! b' ! i = Val v)"
        "\<forall>f'. f0 \<le> f' \<and> f' < f \<longrightarrow> state_vector s f' \<noteq> Some b'"
      unfolding ready_from_def by meson
    from b'(6) f bd(1) have ne: "b' \<noteq> b" by auto
    show "\<exists>b d. state_vector ?s1 f = Some b \<and> read_filter ?s1 f = Some d \<and>
           Some b \<noteq> g_filtered_activities ?s1 \<and> Some b \<noteq> g_activity_filter_params ?s1 \<and>
           (\<forall>i<?n. i < length (heap ?s1 ! b) \<and> (\<exists>v. heap ?s1 ! b ! i = Val v)) \<and>
           (\<forall>f'. Suc f0 \<le> f' \<and> f' < f \<longrightarrow> state_vector ?s1 f' \<noteq> Some b)"
      using b' ne by (intro exI [of _ b'] exI [of _ d']) (simp add: sv rf)
  qed
  have k: "k = unat (g_num_activity_filters ?s1) - Suc f0" using Suc.hyps(2) by simp
  have rest: "filter_loop mul N (Suc f0) ?s1 = Inr (?s1\<lparr>heap := step_heap mul ?n ?s1 (Suc f0)\<rparr>)"
    by (rule Suc.hyps(1) [OF k ready1])
  have df: "decay_filter mul ?n ?s1 = decay_filter mul ?n s"
    by (rule decay_filter_cong [OF len keep_ab keep_pb])
  have "step_heap mul ?n ?s1 (Suc f0) = step_heap mul ?n s f0"
    using lt bd(1,2) by (simp add: step_heap_def df upt_conv_Cons decay_filter_def)
  with rest inner lt show ?case
    by (subst filter_loop.simps) simp
qed


lemma length_decay_filter [simp]: "length (decay_filter mul n s f h) = length h"
  by (simp add: decay_filter_def split: option.splits)

lemma length_fold_decay [simp]: "length (fold (decay_filter mul n s) fs h) = length h"
  by (induction fs arbitrary: h) simp_all

lemma nth_decay_filter_other:
  "state_vector s f \<noteq> Some b \<Longrightarrow> decay_filter mul n s f h ! b = h ! b"
  by (auto simp: decay_filter_def split: option.splits)

lemma nth_decay_filter_hit:
  "state_vector s f = Some b \<Longrightarrow> read_filter s f = Some d \<Longrightarrow> b < length h \<Longrightarrow>
   decay_filter mul n s f h ! b = decay_cells mul d 0 n (h ! b)"
  by (simp add: decay_filter_def)

lemma fold_decay_other:
  "\<forall>f \<in> set fs. state_vector s f \<noteq> Some b \<Longrightarrow>
   fold (decay_filter mul n s) fs h ! b = h ! b"
  by (induction fs arbitrary: h) (simp_all add: nth_decay_filter_other)

lemma fold_decay_hit:
  assumes "distinct fs" "f \<in> set fs" "state_vector s f = Some b" "read_filter s f = Some d"
    and "b < length h" "\<forall>f' \<in> set fs. f' \<noteq> f \<longrightarrow> state_vector s f' \<noteq> Some b"
  shows "fold (decay_filter mul n s) fs h ! b = decay_cells mul d 0 n (h ! b)"
  using assms
proof (induction fs arbitrary: h)
  case Nil
  then show ?case by simp
next
  case (Cons g gs)
  show ?case
  proof (cases "g = f")
    case True
    with Cons.prems have "\<forall>f' \<in> set gs. state_vector s f' \<noteq> Some b" by auto
    then show ?thesis
      using True Cons.prems by (simp add: fold_decay_other nth_decay_filter_hit)
  next
    case False
    with Cons.prems have g: "state_vector s g \<noteq> Some b" and f: "f \<in> set gs" by auto
    have "fold (decay_filter mul n s) gs (decay_filter mul n s g h) ! b =
            decay_cells mul d 0 n (decay_filter mul n s g h ! b)"
      using Cons.prems f by (intro Cons.IH) auto
    then show ?thesis by (simp add: nth_decay_filter_other [OF g])
  qed
qed

lemma step_run:
  assumes "valid_bank (unat N) s"
  shows "filtered_activity_step mul N s = Inr (s\<lparr>heap := step_heap mul (unat N) s 0\<rparr>)"
  unfolding filtered_activity_step_def
  by (rule filter_loop_run [OF valid_bank_ready [OF assms]])

lemma length_step_heap [simp]: "length (step_heap mul n s f0) = length (heap s)"
  by (simp add: step_heap_def)

lemma step_heap_other:
  assumes "\<forall>f < unat (g_num_activity_filters s). state_vector s f \<noteq> Some b"
  shows "step_heap mul n s 0 ! b = heap s ! b"
  unfolding step_heap_def using assms by (intro fold_decay_other) auto

lemma step_heap_hit:
  assumes "valid_bank n s" "f < unat (g_num_activity_filters s)"
    and "state_vector s f = Some b" "read_filter s f = Some d"
  shows "step_heap mul n s 0 ! b = decay_cells mul d 0 n (heap s ! b)"
  unfolding step_heap_def
proof (rule fold_decay_hit [where f = f])
  show "b < length (heap s)" using state_vector_SomeD [OF assms(3)] by blast
  show "\<forall>f' \<in> set [0..<unat (g_num_activity_filters s)]. f' \<noteq> f \<longrightarrow> state_vector s f' \<noteq> Some b"
  proof (intro ballI impI)
    fix f' assume f': "f' \<in> set [0..<unat (g_num_activity_filters s)]" "f' \<noteq> f"
    then have lt: "f' < unat (g_num_activity_filters s)" by simp
    show "state_vector s f' \<noteq> Some b"
    proof (cases "f' < f")
      case True
      with valid_bankD [OF assms(1,2)] assms(3) show ?thesis by auto
    next
      case False
      with f' have "f < f'" by simp
      with valid_bankD [OF assms(1) lt] assms(3) show ?thesis by auto
    qed
  qed
qed (use assms in auto)

lemma step_heap_globals:
  assumes "valid_bank n s"
  shows "g_filtered_activities s = Some a \<Longrightarrow> step_heap mul n s 0 ! a = heap s ! a"
    and "g_activity_filter_params s = Some a \<Longrightarrow> step_heap mul n s 0 ! a = heap s ! a"
proof -
  have ne: "state_vector s f \<noteq> g_filtered_activities s \<and>
            state_vector s f \<noteq> g_activity_filter_params s"
    if "f < unat (g_num_activity_filters s)" for f
    using valid_bankD [OF assms that] by auto
  show "g_filtered_activities s = Some a \<Longrightarrow> step_heap mul n s 0 ! a = heap s ! a"
    using ne by (intro step_heap_other) auto
  show "g_activity_filter_params s = Some a \<Longrightarrow> step_heap mul n s 0 ! a = heap s ! a"
    using ne by (intro step_heap_other) auto
qed

lemma step_state_vector:
  assumes "valid_bank n s"
  shows "state_vector (s\<lparr>heap := step_heap mul n s 0\<rparr>) f = state_vector s f"
  by (rule state_vector_cong) (simp_all add: step_heap_globals [OF assms])

lemma step_read_filter:
  assumes "valid_bank n s"
  shows "read_filter (s\<lparr>heap := step_heap mul n s 0\<rparr>) f = read_filter s f"
  by (rule read_filter_cong) (simp_all add: step_heap_globals [OF assms])


lemma step_read_state:
  assumes "valid_bank n s" "f < unat (g_num_activity_filters s)" "read_filter s f = Some d"
  shows "read_state (s\<lparr>heap := step_heap mul n s 0\<rparr>) f i =
           (if i < n then map_option (\<lambda>v. mul v d) (read_state s f i) else read_state s f i)"
proof -
  from valid_bankD [OF assms(1,2)] obtain b where
    b: "state_vector s f = Some b"
      "\<forall>i<n. i < length (heap s ! b) \<and> (\<exists>v. heap s ! b ! i = Val v)"
    by blast
  have b': "state_vector (s\<lparr>heap := step_heap mul n s 0\<rparr>) f = Some b"
    using b(1) by (simp add: step_state_vector [OF assms(1)])
  have hit: "step_heap mul n s 0 ! b = decay_cells mul d 0 n (heap s ! b)"
    by (rule step_heap_hit [OF assms(1,2) b(1) assms(3)])
  show ?thesis
    using b(2)
    by (auto simp: read_state_eq [OF b'] read_state_eq [OF b(1)] hit nth_decay_cells
          scale_cell_def split: cell.splits)
qed

lemma step_valid:
  assumes "valid_bank n s"
  shows "valid_bank n (s\<lparr>heap := step_heap mul n s 0\<rparr>)"
proof -
  have rs: "read_state (s\<lparr>heap := step_heap mul n s 0\<rparr>) f i \<noteq> None"
    if "f < unat (g_num_activity_filters s)" "i < n" for f i
  proof -
    from assms that have "read_filter s f \<noteq> None" "read_state s f i \<noteq> None"
      by (auto simp: valid_bank_def)
    then show ?thesis
      using step_read_state [OF assms that(1)] that(2) by auto
  qed
  show ?thesis
    using assms rs
    by (auto simp: valid_bank_def step_state_vector [OF assms] step_read_filter [OF assms])
qed

section \<open>Properties of initialise\<close>

lemma length_init_heap [simp]: "length (init_heap H ab m f) = length H + f"
  by (simp add: init_heap_def)

lemma init_heap_old:
  "b < length H \<Longrightarrow> b \<noteq> ab \<Longrightarrow> init_heap H ab m f ! b = H ! b"
  by (simp add: init_heap_def nth_append)

lemma init_heap_ab:
  "ab < length H \<Longrightarrow>
   init_heap H ab m f ! ab = map (\<lambda>i. Ptr (Some (length H + i))) [0..<f] @ drop f (H ! ab)"
  by (simp add: init_heap_def nth_append)

lemma init_heap_new:
  "i < f \<Longrightarrow> init_heap H ab m f ! (length H + i) = replicate m (Val 0)"
  by (simp add: init_heap_def nth_append)

lemma init_heap_Suc:
  assumes "ab < length H" "f < length (H ! ab)"
  shows "((init_heap H ab m f @ [replicate m Undef])
            [ab := ((init_heap H ab m f @ [replicate m Undef]) ! ab)[f := Ptr (Some (length H + f))]])
            [length H + f := replicate m (Val 0)]
         = init_heap H ab m (Suc f)"
proof (rule nth_equalityI)
  show "length (((init_heap H ab m f @ [replicate m Undef])
            [ab := ((init_heap H ab m f @ [replicate m Undef]) ! ab)[f := Ptr (Some (length H + f))]])
            [length H + f := replicate m (Val 0)]) = length (init_heap H ab m (Suc f))"
    by simp
next
  fix b
  assume "b < length (((init_heap H ab m f @ [replicate m Undef])
            [ab := ((init_heap H ab m f @ [replicate m Undef]) ! ab)[f := Ptr (Some (length H + f))]])
            [length H + f := replicate m (Val 0)])"
  then have b: "b < length H + Suc f" by simp
  have blk: "(map (\<lambda>i. Ptr (Some (length H + i))) [0..<f] @ drop f (H ! ab))[f := Ptr (Some (length H + f))]
      = map (\<lambda>i. Ptr (Some (length H + i))) [0..<Suc f] @ drop (Suc f) (H ! ab)"
    using assms(2) by (simp add: list_update_append Cons_nth_drop_Suc [symmetric])
  consider "b = ab" | "b < length H" "b \<noteq> ab" | "length H \<le> b" "b < length H + f" | "b = length H + f"
    using b by linarith
  then show "((init_heap H ab m f @ [replicate m Undef])
            [ab := ((init_heap H ab m f @ [replicate m Undef]) ! ab)[f := Ptr (Some (length H + f))]])
            [length H + f := replicate m (Val 0)] ! b = init_heap H ab m (Suc f) ! b"
  proof cases
    case 1
    then show ?thesis
      using assms(1) blk by (simp add: nth_append init_heap_ab)
  next
    case 2
    then show ?thesis
      using assms(1) by (simp add: nth_append init_heap_old)
  next
    case 3
    then obtain i where i: "b = length H + i" "i < f"
      by (metis add_diff_inverse_nat less_diff_conv2 not_less add.commute)
    with assms(1) show ?thesis
      by (simp add: nth_append init_heap_new)
  next
    case 4
    with assms(1) show ?thesis
      using init_heap_new [of f "Suc f" H ab m] by (simp add: nth_append)
  qed
qed


lemma init_loop_iter:
  assumes "g_filtered_activities s = Some ab" "ab < length H" "f < length (H ! ab)"
    and "g_activity_filter_params s = Some pb" "pb < length H" "pb \<noteq> ab"
    and "2 * f < length (H ! pb)" "H ! pb ! (2 * f) = Val flt"
    and "2 * f + 1 < length (H ! pb)" "H ! pb ! (2 * f + 1) = Val nflt"
    and "heap s = init_heap H ab (words_of (N * sizeof_value)) f"
    and "f < unat (g_num_activity_filters s)"
  shows "init_loop ok N f s =
           (if ok (2 + f)
            then init_loop ok N (Suc f)
                   (s\<lparr>heap := init_heap H ab (words_of (N * sizeof_value)) (Suc f),
                      io_buf := io_buf s @ [FilterLine f flt nflt]\<rparr>)
            else Inr (False,
                   s\<lparr>heap := (heap s)[ab := (heap s ! ab)[f := Ptr None]],
                      io_buf := io_buf s @ [FilterLine f flt nflt]\<rparr>))"
proof -
  let ?m = "words_of (N * sizeof_value)"
  let ?h = "heap s"
  let ?U = "replicate ?m Undef"
  let ?L = "length H + f"
  have len: "length ?h = ?L" using assms(11) by simp
  have hpb: "?h ! pb = H ! pb"
    using assms by (simp add: init_heap_old)
  have l1: "load_val ?h (g_activity_filter_params s) (2 * f) = Inr flt"
    using assms hpb len by (simp add: load_val_def load_def bindE_def)
  have l2: "load_val ?h (g_activity_filter_params s) (2 * f + 1) = Inr nflt"
    using assms hpb len by (simp add: load_val_def load_def bindE_def)
  have lab: "length (?h ! ab) = length (H ! ab)"
    using assms(2,3,11) by (simp add: init_heap_ab)
  show ?thesis
  proof (cases "ok (2 + f)")
    case False
    have st: "store ?h (g_filtered_activities s) f (Ptr None) =
                Inr (?h[ab := (?h ! ab)[f := Ptr None]])"
      using assms(1,2,3) lab len by (simp add: store_def)
    show ?thesis
      apply (subst init_loop.simps)
      apply (simp only: assms(12) if_True l1 l2 sum.case False spin1_malloc_def if_False
               prod.case st)
      apply simp
      done
  next
    case True
    let ?h1 = "?h @ [?U]"
    let ?h2 = "?h1[ab := (?h1 ! ab)[f := Ptr (Some ?L)]]"
    have st: "store ?h1 (g_filtered_activities s) f (Ptr (Some (length ?h))) = Inr ?h2"
      using assms(1,2,3) lab len by (simp add: store_def nth_append)
    have h2L: "?h2 ! ?L = ?U"
      using assms(2) len by (simp add: nth_append)
    have ms: "memset0 ?h2 (Some (length ?h)) (N * sizeof_value) = Inr (?h2[?L := replicate ?m (Val 0)])"
      unfolding memset0_def len using h2L len by simp
    have eq: "?h2[?L := replicate ?m (Val 0)] = init_heap H ab ?m (Suc f)"
      unfolding assms(11) by (rule init_heap_Suc [OF assms(2,3)])
    show ?thesis
      apply (subst init_loop.simps)
      apply (simp only: assms(12) if_True l1 l2 sum.case True spin1_malloc_def
               prod.case st option.simps ms eq)
      apply simp
      done
  qed
qed


lemma init_loop_closed:
  assumes "g_filtered_activities s = Some ab" "ab < length H"
    and "unat (g_num_activity_filters s) \<le> length (H ! ab)"
    and "g_activity_filter_params s = Some pb" "pb < length H" "pb \<noteq> ab"
    and "\<forall>i < 2 * unat (g_num_activity_filters s). i < length (H ! pb) \<and> (\<exists>v. H ! pb ! i = Val v)"
    and "heap s = init_heap H ab (words_of (N * sizeof_value)) f"
    and "f \<le> unat (g_num_activity_filters s)"
  shows "\<exists>b s'. init_loop ok N f s = Inr (b, s') \<and>
           (b \<longrightarrow> (\<exists>io. s' = s\<lparr>heap := init_heap H ab (words_of (N * sizeof_value))
                                     (unat (g_num_activity_filters s)), io_buf := io\<rparr>))"
  using assms
proof (induction "unat (g_num_activity_filters s) - f" arbitrary: f s)
  case 0
  then have f: "f = unat (g_num_activity_filters s)" by simp
  have run: "init_loop ok N f s = Inr (True, s)"
    using f by (subst init_loop.simps) simp
  have "s\<lparr>heap := init_heap H ab (words_of (N * sizeof_value))
                  (unat (g_num_activity_filters s)), io_buf := io_buf s\<rparr> = s"
    using "0.prems"(8) f by simp
  then have "\<exists>io. s = s\<lparr>heap := init_heap H ab (words_of (N * sizeof_value))
                  (unat (g_num_activity_filters s)), io_buf := io\<rparr>"
    by (intro exI [of _ "io_buf s"]) (rule sym)
  with run show ?case by blast
next
  case (Suc k)
  let ?F = "unat (g_num_activity_filters s)"
  let ?m = "words_of (N * sizeof_value)"
  from Suc.hyps(2) have lt: "f < ?F" by simp
  then have i2: "2 * f < 2 * ?F" "2 * f + 1 < 2 * ?F" by simp_all
  from Suc.prems(7) i2 obtain flt nflt where
    cells: "2 * f < length (H ! pb)" "H ! pb ! (2 * f) = Val flt"
      "2 * f + 1 < length (H ! pb)" "H ! pb ! (2 * f + 1) = Val nflt"
    by blast
  have fab: "f < length (H ! ab)" using lt Suc.prems(3) by simp
  let ?s1 = "s\<lparr>heap := init_heap H ab ?m (Suc f), io_buf := io_buf s @ [FilterLine f flt nflt]\<rparr>"
  note iter = init_loop_iter [OF Suc.prems(1,2) fab Suc.prems(4,5,6) cells Suc.prems(8) lt, of ok]
  show ?case
  proof (cases "ok (2 + f)")
    case False
    with iter have "init_loop ok N f s =
        Inr (False, s\<lparr>heap := (heap s)[ab := (heap s ! ab)[f := Ptr None]],
                      io_buf := io_buf s @ [FilterLine f flt nflt]\<rparr>)"
      by simp
    then show ?thesis by blast
  next
    case True
    have k: "k = unat (g_num_activity_filters ?s1) - Suc f" using Suc.hyps(2) by simp
    have "\<exists>b s'. init_loop ok N (Suc f) ?s1 = Inr (b, s') \<and>
           (b \<longrightarrow> (\<exists>io. s' = ?s1\<lparr>heap := init_heap H ab ?m
                                     (unat (g_num_activity_filters ?s1)), io_buf := io\<rparr>))"
    proof (rule Suc.hyps(1) [OF k])
      show "g_filtered_activities ?s1 = Some ab" using Suc.prems(1) by simp
      show "ab < length H" by (rule Suc.prems(2))
      show "unat (g_num_activity_filters ?s1) \<le> length (H ! ab)" using Suc.prems(3) by simp
      show "g_activity_filter_params ?s1 = Some pb" using Suc.prems(4) by simp
      show "pb < length H" by (rule Suc.prems(5))
      show "pb \<noteq> ab" by (rule Suc.prems(6))
      show "\<forall>i < 2 * unat (g_num_activity_filters ?s1). i < length (H ! pb) \<and> (\<exists>v. H ! pb ! i = Val v)"
        using Suc.prems(7) by simp
      show "heap ?s1 = init_heap H ab ?m (Suc f)" by simp
      show "Suc f \<le> unat (g_num_activity_filters ?s1)" using lt by simp
    qed
    then obtain b s' where
      rest: "init_loop ok N (Suc f) ?s1 = Inr (b, s')"
        "b \<longrightarrow> (\<exists>io. s' = s\<lparr>heap := init_heap H ab ?m ?F, io_buf := io\<rparr>)"
      by auto
    from iter True have "init_loop ok N f s = init_loop ok N (Suc f) ?s1" by simp
    with rest show ?thesis by auto
  qed
qed


lemma store_lengths:
  assumes "store h p i c = Inr h'"
  shows "length h' = length h" and "length (h' ! b) = length (h ! b)"
  using assms
  by (auto simp: store_def nth_list_update split: option.splits if_splits)

lemma memset0_lengths:
  assumes "memset0 h p n = Inr h'"
  shows "length h' = length h" and "length (h' ! b) = length (h ! b)"
  using assms
  by (auto simp: memset0_def nth_list_update split: option.splits if_splits)

lemma memcpy_lengths:
  assumes "memcpy h p src n = Inr h'"
  shows "length h' = length h" and "length (h' ! b) = length (h ! b)"
  using assms
  by (auto simp: memcpy_def nth_list_update split: option.splits if_splits)

lemma init_loop_unfold:
  assumes "init_loop ok N f s = Inr (b, s')" "f < unat (g_num_activity_filters s)"
  shows "\<exists>flt nflt h2.
           load_val (heap s) (g_activity_filter_params s) (2 * f) = Inr flt \<and>
           load_val (heap s) (g_activity_filter_params s) (2 * f + 1) = Inr nflt \<and>
           (if ok (2 + f)
            then (\<exists>h3. store (heap s @ [replicate (words_of (N * sizeof_value)) Undef])
                         (g_filtered_activities s) f (Ptr (Some (length (heap s)))) = Inr h2 \<and>
                       memset0 h2 (Some (length (heap s))) (N * sizeof_value) = Inr h3 \<and>
                       init_loop ok N (Suc f)
                         (s\<lparr>heap := h3, io_buf := io_buf s @ [FilterLine f flt nflt]\<rparr>) = Inr (b, s'))
            else store (heap s) (g_filtered_activities s) f (Ptr None) = Inr h2 \<and> \<not> b \<and>
                 s' = s\<lparr>heap := h2, io_buf := io_buf s @ [FilterLine f flt nflt]\<rparr>)"
  using assms
  by (subst (asm) init_loop.simps)
     (auto simp: spin1_malloc_def split: sum.splits if_splits)


lemma takeWhile_upt_step:
  "f < F \<Longrightarrow>
   takeWhile P [f..<F] = (if P f then f # takeWhile P [Suc f..<F] else [])"
  by (simp add: upt_conv_Cons)

lemma init_loop_result:
  assumes "init_loop ok N f s = Inr (b, s')"
  shows "g_num_activity_filters s' = g_num_activity_filters s \<and>
         g_filtered_activities s' = g_filtered_activities s \<and>
         g_activity_filter_params s' = g_activity_filter_params s \<and>
         (b \<longleftrightarrow> (\<forall>i. f \<le> i \<and> i < unat (g_num_activity_filters s) \<longrightarrow> ok (2 + i))) \<and>
         length (heap s') = length (heap s) +
           length (takeWhile (\<lambda>i. ok (2 + i)) [f..<unat (g_num_activity_filters s)])"
  using assms
proof (induction "unat (g_num_activity_filters s) - f" arbitrary: f s)
  case 0
  then have "\<not> f < unat (g_num_activity_filters s)" by simp
  with "0.prems" show ?case
    by (subst (asm) init_loop.simps) auto
next
  case (Suc k)
  let ?F = "unat (g_num_activity_filters s)"
  from Suc.hyps(2) have lt: "f < ?F" by simp
  from init_loop_unfold [OF Suc.prems lt] obtain flt nflt h2 where
    u: "if ok (2 + f)
        then (\<exists>h3. store (heap s @ [replicate (words_of (N * sizeof_value)) Undef])
                     (g_filtered_activities s) f (Ptr (Some (length (heap s)))) = Inr h2 \<and>
                   memset0 h2 (Some (length (heap s))) (N * sizeof_value) = Inr h3 \<and>
                   init_loop ok N (Suc f)
                     (s\<lparr>heap := h3, io_buf := io_buf s @ [FilterLine f flt nflt]\<rparr>) = Inr (b, s'))
        else store (heap s) (g_filtered_activities s) f (Ptr None) = Inr h2 \<and> \<not> b \<and>
             s' = s\<lparr>heap := h2, io_buf := io_buf s @ [FilterLine f flt nflt]\<rparr>"
    by blast
  show ?case
  proof (cases "ok (2 + f)")
    case False
    with u have st: "store (heap s) (g_filtered_activities s) f (Ptr None) = Inr h2"
      and nb: "\<not> b" and s': "s' = s\<lparr>heap := h2, io_buf := io_buf s @ [FilterLine f flt nflt]\<rparr>"
      by simp_all
    have "\<not> (\<forall>i. f \<le> i \<and> i < ?F \<longrightarrow> ok (2 + i))"
      using False lt by blast
    then show ?thesis
      using nb s' store_lengths(1) [OF st] False lt
      by (simp add: takeWhile_upt_step)
  next
    case True
    with u obtain h3 where
      st: "store (heap s @ [replicate (words_of (N * sizeof_value)) Undef])
             (g_filtered_activities s) f (Ptr (Some (length (heap s)))) = Inr h2"
      and ms: "memset0 h2 (Some (length (heap s))) (N * sizeof_value) = Inr h3"
      and rest: "init_loop ok N (Suc f)
                   (s\<lparr>heap := h3, io_buf := io_buf s @ [FilterLine f flt nflt]\<rparr>) = Inr (b, s')"
      by auto
    let ?s1 = "s\<lparr>heap := h3, io_buf := io_buf s @ [FilterLine f flt nflt]\<rparr>"
    have k: "k = unat (g_num_activity_filters ?s1) - Suc f" using Suc.hyps(2) by simp
    note ih = Suc.hyps(1) [OF k rest]
    have len3: "length h3 = Suc (length (heap s))"
      using store_lengths(1) [OF st] memset0_lengths(1) [OF ms] by simp
    have all: "(\<forall>i. f \<le> i \<and> i < ?F \<longrightarrow> ok (2 + i)) \<longleftrightarrow>
               (\<forall>i. Suc f \<le> i \<and> i < ?F \<longrightarrow> ok (2 + i))"
      using True by (metis Suc_leI le_neq_implies_less Suc_leD)
    show ?thesis
      using ih len3 True lt all by (simp add: takeWhile_upt_step)
  qed
qed

lemma init_loop_true_params:
  assumes "init_loop ok N f s = Inr (True, s')"
    and "g_activity_filter_params s = Some pb" "pb < length (heap s)"
    and "2 * f \<le> length (heap s ! pb)"
  shows "2 * unat (g_num_activity_filters s) \<le> length (heap s ! pb)"
  using assms
proof (induction "unat (g_num_activity_filters s) - f" arbitrary: f s)
  case 0
  then show ?case by simp
next
  case (Suc k)
  let ?F = "unat (g_num_activity_filters s)"
  from Suc.hyps(2) have lt: "f < ?F" by simp
  from init_loop_unfold [OF Suc.prems(1) lt] obtain flt nflt h2 h3 where
    l2: "load_val (heap s) (g_activity_filter_params s) (2 * f + 1) = Inr nflt"
    and st: "store (heap s @ [replicate (words_of (N * sizeof_value)) Undef])
             (g_filtered_activities s) f (Ptr (Some (length (heap s)))) = Inr h2"
    and ms: "memset0 h2 (Some (length (heap s))) (N * sizeof_value) = Inr h3"
    and rest: "init_loop ok N (Suc f)
                 (s\<lparr>heap := h3, io_buf := io_buf s @ [FilterLine f flt nflt]\<rparr>) = Inr (True, s')"
    by (auto split: if_splits)
  let ?s1 = "s\<lparr>heap := h3, io_buf := io_buf s @ [FilterLine f flt nflt]\<rparr>"
  have k: "k = unat (g_num_activity_filters ?s1) - Suc f" using Suc.hyps(2) by simp
  have in_range: "2 * f + 1 < length (heap s ! pb)"
    using l2 Suc.prems(2)
    by (auto simp: load_val_def load_def bindE_def split: if_splits)
  have len3: "length h3 = Suc (length (heap s))"
    using store_lengths(1) [OF st] memset0_lengths(1) [OF ms] by simp
  have blk: "length (h3 ! pb) = length (heap s ! pb)"
    using store_lengths(2) [OF st, of pb] memset0_lengths(2) [OF ms, of pb] Suc.prems(3)
    by (simp add: nth_append)
  have "2 * unat (g_num_activity_filters ?s1) \<le> length (heap ?s1 ! pb)"
    by (rule Suc.hyps(1) [OF k rest]) (use Suc.prems len3 blk in_range in auto)
  then show ?case using blk by simp
qed


lemma words_of_params: "unat w < 2 ^ 29 \<Longrightarrow> words_of (w * sizeof_params) = 2 * unat w"
  by (simp add: words_of_def sizeof_params_def unat_word_ariths)

lemma words_of_pointer: "unat w < 2 ^ 30 \<Longrightarrow> words_of (w * sizeof_pointer) = unat w"
  by (simp add: words_of_def sizeof_pointer_def unat_word_ariths)

lemma words_of_value: "unat w < 2 ^ 30 \<Longrightarrow> words_of (w * sizeof_value) = unat w"
  by (simp add: words_of_def sizeof_value_def unat_word_ariths)

lemma params_fit:
  assumes "2 * unat w \<le> words_of (w * sizeof_params)" "w \<noteq> 0"
  shows "unat w < 2 ^ 29"
proof (rule ccontr)
  assume "\<not> unat w < 2 ^ 29"
  then have big: "2 ^ 32 \<le> unat w * 8" by simp
  have pos: "0 < unat w" using assms(2) by (simp add: unat_gt_0)
  have "unat (w * 8) = (unat w * 8) mod 2 ^ 32"
    by (simp add: unat_word_ariths)
  also have "\<dots> \<le> unat w * 8 - 2 ^ 32"
    using big by (metis mod_le_divisor le_mod_geq mod_less_eq_dividend zero_less_numeral zero_less_power)
  finally have "words_of (w * sizeof_params) \<le> (unat w * 8 - 2 ^ 32) div 4"
    by (simp add: words_of_def sizeof_params_def div_le_mono)
  with assms(1) pos big show False by simp
qed

lemma initialise_zero:
  assumes "address 0 = 0"
  shows "filtered_activity_initialise ok address N s0 =
           Inr (True, s0\<lparr>g_num_activity_filters := 0, io_buf := io_buf s0 @ [NumFilters 0]\<rparr>)"
  using assms by (simp add: filtered_activity_initialise_def)

lemma initialise_fail_params:
  assumes "address 0 \<noteq> 0" "\<not> ok 0"
  shows "filtered_activity_initialise ok address N s0 =
           Inr (False, s0\<lparr>g_num_activity_filters := address 0,
                           io_buf := io_buf s0 @ [NumFilters (address 0)],
                           g_activity_filter_params := None\<rparr>)"
  using assms
  by (simp add: filtered_activity_initialise_def spin1_malloc_def word_greater_zero_iff)

lemma initialise_fail_pointers:
  assumes "address 0 \<noteq> 0" "ok 0" "\<not> ok 1"
  shows "filtered_activity_initialise ok address N s0 =
           Inr (False, s0\<lparr>g_num_activity_filters := address 0,
                           io_buf := io_buf s0 @ [NumFilters (address 0)],
                           g_activity_filter_params := Some (length (heap s0)),
                           heap := heap s0 @ [replicate (words_of (address 0 * sizeof_params)) Undef],
                           g_filtered_activities := None\<rparr>)"
  using assms
  by (simp add: filtered_activity_initialise_def spin1_malloc_def word_greater_zero_iff)

lemma initialise_loop:
  assumes "address 0 \<noteq> 0" "ok 0" "ok 1"
  shows "filtered_activity_initialise ok address N s0 =
           init_loop ok N 0 (loop_entry address s0)"
  using assms
  by (simp add: filtered_activity_initialise_def spin1_malloc_def word_greater_zero_iff
        memcpy_def nth_append list_update_append loop_entry_def params_block_def)

lemma loop_entry_closed:
  assumes "unat (address 0) < 2 ^ 29"
  shows "\<exists>b s'. init_loop ok N 0 (loop_entry address s0) = Inr (b, s') \<and>
           (b \<longrightarrow> (\<exists>io. s' = (loop_entry address s0)\<lparr>heap := final_heap address N s0, io_buf := io\<rparr>))"
proof -
  let ?s = "loop_entry address s0"
  let ?L = "length (heap s0)"
  have F: "unat (g_num_activity_filters ?s) = unat (address 0)" by (simp add: loop_entry_def)
  have "\<exists>b s'. init_loop ok N 0 ?s = Inr (b, s') \<and>
           (b \<longrightarrow> (\<exists>io. s' = ?s\<lparr>heap := init_heap (heap ?s) (Suc ?L) (words_of (N * sizeof_value))
                                     (unat (g_num_activity_filters ?s)), io_buf := io\<rparr>))"
  proof (rule init_loop_closed [where pb = ?L])
    show "g_filtered_activities ?s = Some (Suc ?L)" by (simp add: loop_entry_def)
    show "Suc ?L < length (heap ?s)" by (simp add: loop_entry_def)
    show "unat (g_num_activity_filters ?s) \<le> length (heap ?s ! Suc ?L)"
      using assms by (simp add: loop_entry_def nth_append words_of_pointer)
    show "g_activity_filter_params ?s = Some ?L" by (simp add: loop_entry_def)
    show "?L < length (heap ?s)" by (simp add: loop_entry_def)
    show "?L \<noteq> Suc ?L" by simp
    show "\<forall>i<2 * unat (g_num_activity_filters ?s).
            i < length (heap ?s ! ?L) \<and> (\<exists>v. heap ?s ! ?L ! i = Val v)"
      using assms by (simp add: loop_entry_def nth_append params_block_def words_of_params)
    show "heap ?s = init_heap (heap ?s) (Suc ?L) (words_of (N * sizeof_value)) 0"
      by (simp add: init_heap_def)
    show "0 \<le> unat (g_num_activity_filters ?s)" by simp
  qed
  then show ?thesis by (simp only: F final_heap_def)
qed

lemma initialise_total:
  assumes "unat (address 0) < 2 ^ 29"
  shows "\<exists>b s'. filtered_activity_initialise ok address N s0 = Inr (b, s')"
proof -
  consider "address 0 = 0" | "address 0 \<noteq> 0" "\<not> ok 0" | "address 0 \<noteq> 0" "ok 0" "\<not> ok 1"
    | "address 0 \<noteq> 0" "ok 0" "ok 1"
    by blast
  then show ?thesis
  proof cases
    case 1
    then show ?thesis by (auto simp: initialise_zero)
  next
    case 2
    then show ?thesis by (auto simp: initialise_fail_params)
  next
    case 3
    then show ?thesis by (auto simp: initialise_fail_pointers)
  next
    case 4
    then show ?thesis
      using loop_entry_closed [where address = address and ok = ok and N = N and ?s0.0 = s0, OF assms]
      by (auto simp: initialise_loop)
  qed
qed

lemma initialise_true:
  assumes "filtered_activity_initialise ok address N s0 = Inr (True, s')" "address 0 \<noteq> 0"
  shows "unat (address 0) < 2 ^ 29"
    and "\<exists>io. s' = (loop_entry address s0)\<lparr>heap := final_heap address N s0, io_buf := io\<rparr>"
proof -
  have ok: "ok 0" "ok 1"
    using assms initialise_fail_params [of address ok N s0]
      initialise_fail_pointers [of address ok N s0]
    by auto
  then have run: "init_loop ok N 0 (loop_entry address s0) = Inr (True, s')"
    using assms by (simp add: initialise_loop)
  have "2 * unat (g_num_activity_filters (loop_entry address s0))
          \<le> length (heap (loop_entry address s0) ! length (heap s0))"
    by (rule init_loop_true_params [OF run]) (simp_all add: loop_entry_def)
  then have "2 * unat (address 0) \<le> words_of (address 0 * sizeof_params)"
    by (simp add: loop_entry_def nth_append params_block_def)
  then show small: "unat (address 0) < 2 ^ 29"
    by (rule params_fit) (rule assms(2))
  from loop_entry_closed [where address = address and ok = ok and N = N and ?s0.0 = s0, OF small] run
  show "\<exists>io. s' = (loop_entry address s0)\<lparr>heap := final_heap address N s0, io_buf := io\<rparr>"
    by auto
qed


lemma final_heap_params:
  "final_heap address N s0 ! length (heap s0) = params_block address"
  by (simp add: final_heap_def loop_entry_def init_heap_old nth_append)

lemma final_heap_pointers:
  assumes "unat (address 0) < 2 ^ 29" "f < unat (address 0)"
  shows "final_heap address N s0 ! Suc (length (heap s0)) ! f = Ptr (Some (length (heap s0) + 2 + f))"
    and "f < length (final_heap address N s0 ! Suc (length (heap s0)))"
  using assms
  by (simp_all add: final_heap_def loop_entry_def init_heap_ab nth_append words_of_pointer)

lemma final_heap_vector:
  assumes "f < unat (address 0)"
  shows "final_heap address N s0 ! (length (heap s0) + 2 + f) = replicate (words_of (N * sizeof_value)) (Val 0)"
  using init_heap_new [OF assms, of "heap (loop_entry address s0)" "Suc (length (heap s0))"
      "words_of (N * sizeof_value)"]
  by (simp add: final_heap_def loop_entry_def add.commute add.left_commute)

lemma length_final_heap [simp]:
  "length (final_heap address N s0) = length (heap s0) + 2 + unat (address 0)"
  by (simp add: final_heap_def loop_entry_def)

lemma final_read_filter:
  assumes "unat (address 0) < 2 ^ 29" "f < unat (address 0)"
  shows "read_filter ((loop_entry address s0)\<lparr>heap := final_heap address N s0, io_buf := io\<rparr>) f
           = Some (address (1 + 2 * f))"
    and "read_n_filter ((loop_entry address s0)\<lparr>heap := final_heap address N s0, io_buf := io\<rparr>) f
           = Some (address (1 + (2 * f + 1)))"
  using assms
  by (simp_all add: read_filter_def read_n_filter_def load_val_def load_def bindE_def
        loop_entry_def final_heap_params params_block_def words_of_params)

lemma final_state_vector:
  assumes "unat (address 0) < 2 ^ 29" "f < unat (address 0)"
  shows "state_vector ((loop_entry address s0)\<lparr>heap := final_heap address N s0, io_buf := io\<rparr>) f
           = Some (length (heap s0) + 2 + f)"
  using assms final_heap_pointers [where address = address and N = N and ?s0.0 = s0, OF assms]
  by (simp add: state_vector_def load_ptr_def load_def bindE_def loop_entry_def)

lemma final_read_state:
  assumes "unat (address 0) < 2 ^ 29" "f < unat (address 0)"
  shows "read_state ((loop_entry address s0)\<lparr>heap := final_heap address N s0, io_buf := io\<rparr>) f n
           = (if n < words_of (N * sizeof_value) then Some 0 else None)"
  using assms final_heap_vector [where address = address and N = N and ?s0.0 = s0, OF assms(2)]
  by (simp add: read_state_eq [OF final_state_vector [where address = address, OF assms]])

lemma final_valid:
  assumes "unat (address 0) < 2 ^ 29" "n \<le> words_of (N * sizeof_value)"
  shows "valid_bank n ((loop_entry address s0)\<lparr>heap := final_heap address N s0, io_buf := io\<rparr>)"
  unfolding valid_bank_def
proof (intro ballI conjI)
  let ?s = "(loop_entry address s0)\<lparr>heap := final_heap address N s0, io_buf := io\<rparr>"
  fix f assume "f \<in> {0..<unat (g_num_activity_filters ?s)}"
  then have f: "f < unat (address 0)" by (simp add: loop_entry_def)
  note sv = final_state_vector [where address = address and N = N and ?s0.0 = s0 and io = io, OF assms(1) f]
  show "read_filter ?s f \<noteq> None" using final_read_filter(1) [where address = address, OF assms(1) f] by simp
  show "state_vector ?s f \<noteq> None" using sv by simp
  show "state_vector ?s f \<noteq> g_filtered_activities ?s" using sv by (simp add: loop_entry_def)
  show "state_vector ?s f \<noteq> g_activity_filter_params ?s" using sv by (simp add: loop_entry_def)
  show "read_state ?s f i \<noteq> None" if "i \<in> {0..<n}" for i
    using that assms(2) by (simp add: final_read_state [where address = address, OF assms(1) f])
  show "state_vector ?s f' \<noteq> state_vector ?s f" if "f' \<in> {0..<f}" for f'
  proof -
    from that f have f': "f' < unat (address 0)" "f' \<noteq> f" by simp_all
    show ?thesis using sv final_state_vector [where address = address and N = N and ?s0.0 = s0 and io = io, OF assms(1) f'(1)] f'(2) by simp
  qed
qed

lemma upt_two: "[0..<Suc (Suc F)] = 0 # Suc 0 # map (\<lambda>i. Suc (Suc i)) [0..<F]"
proof -
  have a: "[0..<Suc (Suc F)] = 0 # [Suc 0..<Suc (Suc F)]" by (rule upt_conv_Cons) simp
  have b: "[Suc 0..<Suc (Suc F)] = Suc 0 # [Suc (Suc 0)..<Suc (Suc F)]" by (rule upt_conv_Cons) simp
  have c: "[Suc (Suc 0)..<Suc (Suc F)] = map (\<lambda>i. Suc (Suc i)) [0..<F]"
    using map_add_upt [of 2 F] by (simp add: numeral_2_eq_2)
  show ?thesis by (simp only: a b c)
qed

lemma granted_cases:
  shows "\<not> ok 0 \<Longrightarrow> granted ok (Suc (Suc F)) = 0"
    and "ok 0 \<Longrightarrow> \<not> ok (Suc 0) \<Longrightarrow> granted ok (Suc (Suc F)) = Suc 0"
    and "ok 0 \<Longrightarrow> ok (Suc 0) \<Longrightarrow>
         granted ok (Suc (Suc F)) = Suc (Suc (length (takeWhile (\<lambda>i. ok (Suc (Suc i))) [0..<F])))"
  by (simp_all add: granted_def upt_two takeWhile_map comp_def del: upt_Suc)

lemma initialise_result:
  assumes "filtered_activity_initialise ok address N s0 = Inr (b, s')"
  shows "(b \<longleftrightarrow> (\<forall>k < n_allocs address. ok k)) \<and>
         g_num_activity_filters s' = address 0 \<and>
         length (heap s') = length (heap s0) + granted ok (n_allocs address)"
proof -
  consider "address 0 = 0" | "address 0 \<noteq> 0" "\<not> ok 0" | "address 0 \<noteq> 0" "ok 0" "\<not> ok 1"
    | "address 0 \<noteq> 0" "ok 0" "ok 1"
    by blast
  then show ?thesis
  proof cases
    case 1
    with assms show ?thesis
      by (auto simp: initialise_zero n_allocs_def granted_def)
  next
    case 2
    with assms show ?thesis
      by (auto simp: initialise_fail_params n_allocs_def granted_cases)
  next
    case 3
    with assms show ?thesis
      by (auto simp: initialise_fail_pointers n_allocs_def granted_cases intro: exI [of _ 1])
  next
    case 4
    with assms have run: "init_loop ok N 0 (loop_entry address s0) = Inr (b, s')"
      by (simp add: initialise_loop)
    note r = init_loop_result [OF run]
    have F: "unat (g_num_activity_filters (loop_entry address s0)) = unat (address 0)"
      by (simp add: loop_entry_def)
    have all: "(\<forall>k < 2 + unat (address 0). ok k) \<longleftrightarrow> (\<forall>i. i < unat (address 0) \<longrightarrow> ok (2 + i))"
    proof
      assume "\<forall>k < 2 + unat (address 0). ok k"
      then show "\<forall>i. i < unat (address 0) \<longrightarrow> ok (2 + i)" by simp
    next
      assume a: "\<forall>i. i < unat (address 0) \<longrightarrow> ok (2 + i)"
      show "\<forall>k < 2 + unat (address 0). ok k"
      proof (intro allI impI)
        fix k assume k: "k < 2 + unat (address 0)"
        consider "k = 0" | "k = 1" | "2 \<le> k" by linarith
        then show "ok k"
        proof cases
          case 3
          then obtain i where "k = 2 + i" using le_Suc_ex by blast
          with a k show ?thesis by simp
        qed (use 4 in simp_all)
      qed
    qed
    show ?thesis
      using r 4 all
      by (simp add: F n_allocs_def granted_cases) (simp add: loop_entry_def)
  qed
qed

section \<open>Further facts used by the claims\<close>

lemma valid_bank_reads:
  assumes "valid_bank n s" "f < unat (g_num_activity_filters s)"
  shows "\<exists>d. read_filter s f = Some d" and "i < n \<Longrightarrow> \<exists>v. read_state s f i = Some v"
proof -
  from assms(2) have f: "f \<in> {0..<unat (g_num_activity_filters s)}" by simp
  with assms(1) have r: "read_filter s f \<noteq> None" "\<forall>i \<in> {0..<n}. read_state s f i \<noteq> None"
    unfolding valid_bank_def by blast+
  from r(1) show "\<exists>d. read_filter s f = Some d" by blast
  show "\<exists>v. read_state s f i = Some v" if "i < n"
  proof -
    from that have "i \<in> {0..<n}" by simp
    with r(2) show ?thesis by blast
  qed
qed

lemma step_valid_run:
  assumes "valid_bank (unat n_neurons) s"
  shows "\<exists>s'. filtered_activity_step mul n_neurons s = Inr s' \<and>
           valid_bank (unat n_neurons) s' \<and>
           g_num_activity_filters s' = g_num_activity_filters s \<and>
           (\<forall>f. read_filter s' f = read_filter s f) \<and>
           (\<forall>f d n. f < unat (g_num_activity_filters s) \<longrightarrow> read_filter s f = Some d \<longrightarrow>
              n < unat n_neurons \<longrightarrow>
              read_state s' f n = map_option (\<lambda>v. mul v d) (read_state s f n))"
  using step_run [OF assms, of mul] step_valid [OF assms, of mul]
  by (simp add: step_read_filter [OF assms] step_read_state [OF assms])

lemma step_no_filters:
  assumes "g_num_activity_filters s = 0"
  shows "filtered_activity_step mul n_neurons s = Inr s"
  unfolding filtered_activity_step_def using assms
  by (subst filter_loop.simps) simp

lemma run_steps_no_filters:
  assumes "g_num_activity_filters s = 0"
  shows "run_steps mul n_neurons k s = Inr s"
  by (induction k) (simp_all add: step_no_filters [OF assms])

lemma valid_bank_distinct:
  assumes "valid_bank n s" "f < unat (g_num_activity_filters s)"
    and "f' < unat (g_num_activity_filters s)" "f \<noteq> f'"
  shows "state_vector s f \<noteq> state_vector s f'"
proof (cases "f' < f")
  case True
  with valid_bankD [OF assms(1,2)] show ?thesis by auto
next
  case False
  with assms(4) have "f < f'" by simp
  with valid_bankD [OF assms(1,3)] show ?thesis by auto
qed

lemma read_state_update_other:
  assumes "state_vector s f = Some b" "b' \<noteq> b" "Some b' \<noteq> g_filtered_activities s"
  shows "read_state (s\<lparr>heap := (heap s)[b' := X]\<rparr>) f n = read_state s f n"
proof -
  have "state_vector (s\<lparr>heap := (heap s)[b' := X]\<rparr>) f = state_vector s f"
    using assms(3) by (intro state_vector_cong) auto
  with assms(1) have sv: "state_vector (s\<lparr>heap := (heap s)[b' := X]\<rparr>) f = Some b" by simp
  show ?thesis
    using assms(2) by (simp add: read_state_eq [OF sv] read_state_eq [OF assms(1)])
qed

lemma read_state_update_entry:
  assumes "state_vector s f = Some b" "Some b \<noteq> g_filtered_activities s" "n' \<noteq> n"
  shows "read_state (s\<lparr>heap := (heap s)[b := (heap s ! b)[n := c]]\<rparr>) f n' = read_state s f n'"
proof -
  have "state_vector (s\<lparr>heap := (heap s)[b := (heap s ! b)[n := c]]\<rparr>) f = state_vector s f"
    using assms(2) by (intro state_vector_cong) auto
  with assms(1) have sv: "state_vector (s\<lparr>heap := (heap s)[b := (heap s ! b)[n := c]]\<rparr>) f = Some b"
    by simp
  from state_vector_SomeD [OF assms(1)] have "b < length (heap s)" by blast
  then show ?thesis
    using assms(3) by (simp add: read_state_eq [OF sv] read_state_eq [OF assms(1)])
qed

lemma step_body_frame:
  assumes "valid_bank (unat n_neurons) s" "f < unat (g_num_activity_filters s)"
    and "n < unat n_neurons"
  shows "\<exists>s1. step_body mul f n s = Inr s1 \<and>
           (\<forall>f' n'. f' < unat (g_num_activity_filters s) \<longrightarrow> (f' \<noteq> f \<or> n' \<noteq> n) \<longrightarrow>
              read_state s1 f' n' = read_state s f' n')"
proof -
  from valid_bankD [OF assms(1,2)] obtain b d where
    bd: "state_vector s f = Some b" "read_filter s f = Some d"
      "Some b \<noteq> g_filtered_activities s" "Some b \<noteq> g_activity_filter_params s"
      "\<forall>i<unat n_neurons. i < length (heap s ! b) \<and> (\<exists>v. heap s ! b ! i = Val v)"
    by blast
  from state_vector_SomeD [OF bd(1)] obtain ab where
    ab: "g_filtered_activities s = Some ab" "ab < length (heap s)" "f < length (heap s ! ab)"
      "heap s ! ab ! f = Ptr (Some b)" "b < length (heap s)"
    by blast
  from read_filter_SomeD [OF bd(2)] obtain pb where
    pb: "g_activity_filter_params s = Some pb" "pb < length (heap s)"
      "2 * f < length (heap s ! pb)" "heap s ! pb ! (2 * f) = Val d"
    by blast
  from bd(5) assms(3) obtain v where v: "n < length (heap s ! b)" "heap s ! b ! n = Val v"
    by blast
  let ?s1 = "s\<lparr>heap := (heap s)[b := (heap s ! b)[n := Val (mul v d)]]\<rparr>"
  have run: "step_body mul f n s = Inr ?s1"
    by (rule step_body_run [OF ab(1,2,3,4) pb ab(5) v])
  have "read_state ?s1 f' n' = read_state s f' n'"
    if "f' < unat (g_num_activity_filters s)" "f' \<noteq> f \<or> n' \<noteq> n" for f' n'
  proof (cases "f' = f")
    case True
    with that(2) have "n' \<noteq> n" by simp
    then show ?thesis unfolding True by (rule read_state_update_entry [OF bd(1,3)])
  next
    case False
    from valid_bankD [OF assms(1) that(1)] obtain b' where b': "state_vector s f' = Some b'"
      by blast
    from valid_bank_distinct [OF assms(1,2) that(1)] False bd(1) b' have "b \<noteq> b'" by auto
    then show ?thesis by (rule read_state_update_other [OF b' _ bd(3)])
  qed
  with run show ?thesis by blast
qed

lemma neuron_loop_frame:
  assumes "valid_bank (unat n_neurons) s" "f < unat (g_num_activity_filters s)"
  shows "\<exists>s1. neuron_loop mul n_neurons f 0 s = Inr s1 \<and>
           (\<forall>f' n'. f' < unat (g_num_activity_filters s) \<longrightarrow> f' \<noteq> f \<longrightarrow>
              read_state s1 f' n' = read_state s f' n')"
proof -
  from valid_bankD [OF assms(1,2)] obtain b d where
    bd: "state_vector s f = Some b" "read_filter s f = Some d"
      "Some b \<noteq> g_filtered_activities s" "Some b \<noteq> g_activity_filter_params s"
      "\<forall>i<unat n_neurons. i < length (heap s ! b) \<and> (\<exists>v. heap s ! b ! i = Val v)"
    by blast
  from state_vector_SomeD [OF bd(1)] obtain ab where
    ab: "g_filtered_activities s = Some ab" "ab < length (heap s)" "f < length (heap s ! ab)"
      "heap s ! ab ! f = Ptr (Some b)" "b < length (heap s)"
    by blast
  from read_filter_SomeD [OF bd(2)] obtain pb where
    pb: "g_activity_filter_params s = Some pb" "pb < length (heap s)"
      "2 * f < length (heap s ! pb)" "heap s ! pb ! (2 * f) = Val d"
    by blast
  let ?s1 = "s\<lparr>heap := (heap s)[b := decay_cells mul d 0 (unat n_neurons) (heap s ! b)]\<rparr>"
  have run: "neuron_loop mul n_neurons f 0 s = Inr ?s1"
    using ab pb bd
    by (intro neuron_loop_run [where ab = ab and pb = pb and b = b and d = d]) auto
  have "read_state ?s1 f' n' = read_state s f' n'"
    if "f' < unat (g_num_activity_filters s)" "f' \<noteq> f" for f' n'
  proof -
    from valid_bankD [OF assms(1) that(1)] obtain b' where b': "state_vector s f' = Some b'"
      by blast
    from valid_bank_distinct [OF assms(1,2) that(1)] that(2) bd(1) b' have "b \<noteq> b'" by auto
    then show ?thesis by (rule read_state_update_other [OF b' _ bd(3)])
  qed
  with run show ?thesis by blast
qed

text \<open>
  A successful initialise leaves a bank on which step may be called with any neuron
  count up to the number of entries it allocated per vector; that number is \<open>n_neurons\<close>
  itself when \<open>n_neurons * sizeof(value_t)\<close> does not wrap.
\<close>

lemma initialise_valid_bank:
  assumes "filtered_activity_initialise ok address n_neurons s0 = Inr (True, s')"
    and "n \<le> words_of (n_neurons * sizeof_value)"
  shows "valid_bank n s'"
proof (cases "address 0 = 0")
  case True
  with assms(1) have "g_num_activity_filters s' = 0"
    by (auto simp: initialise_zero)
  then show ?thesis by (simp add: valid_bank_def)
next
  case False
  note t = initialise_true [OF assms(1) False]
  from t(2) obtain io where
    s': "s' = (loop_entry address s0)\<lparr>heap := final_heap address n_neurons s0, io_buf := io\<rparr>"
    by blast
  show ?thesis
    unfolding s' by (rule final_valid [where address = address, OF t(1) assms(2)])
qed

lemma initialise_valid_bank_neurons:
  assumes "filtered_activity_initialise ok address n_neurons s0 = Inr (True, s')"
    and "unat n_neurons < 2 ^ 30"
  shows "valid_bank (unat n_neurons) s'"
  by (rule initialise_valid_bank [OF assms(1)]) (simp add: words_of_value [OF assms(2)])

text \<open>The statements about step on a bank that is set up for the neuron count.\<close>

lemma valid_step_multiplies_by_decay:
  assumes "valid_bank (unat n_neurons) s"
  shows "\<exists>s'. filtered_activity_step mul n_neurons s = Inr s' \<and>
           (\<forall>f < unat (g_num_activity_filters s). \<forall>n < unat n_neurons.
              \<exists>v d. read_state s f n = Some v \<and> read_filter s f = Some d \<and>
                    read_state s' f n = Some (mul v d)) \<and>
           (\<forall>f < unat (g_num_activity_filters s). \<forall>n \<ge> unat n_neurons.
              read_state s' f n = read_state s f n) \<and>
           (\<forall>b. (\<forall>f < unat (g_num_activity_filters s). state_vector s f \<noteq> Some b) \<longrightarrow>
              heap s' ! b = heap s ! b) \<and>
           length (heap s') = length (heap s) \<and>
           s' = s\<lparr>heap := heap s'\<rparr>"
proof -
  let ?n = "unat n_neurons"
  let ?s' = "s\<lparr>heap := step_heap mul ?n s 0\<rparr>"
  have run: "filtered_activity_step mul n_neurons s = Inr ?s'"
    by (rule step_run [OF assms])
  have a: "\<exists>v d. read_state s f n = Some v \<and> read_filter s f = Some d \<and>
                 read_state ?s' f n = Some (mul v d)"
    if "f < unat (g_num_activity_filters s)" "n < ?n" for f n
  proof -
    from valid_bank_reads [OF assms that(1)] that(2) obtain v d where
      vd: "read_state s f n = Some v" "read_filter s f = Some d"
      by blast
    then show ?thesis
      using step_read_state [OF assms that(1) vd(2), of mul n] that(2) by simp
  qed
  have b: "read_state ?s' f n = read_state s f n"
    if "f < unat (g_num_activity_filters s)" "?n \<le> n" for f n
  proof -
    from valid_bank_reads(1) [OF assms that(1)] obtain d where "read_filter s f = Some d"
      by blast
    then show ?thesis
      using step_read_state [OF assms that(1), of d mul n] that(2) by simp
  qed
  show ?thesis
    using run a b by (intro exI [of _ ?s']) (simp add: step_heap_other)
qed

lemma valid_run_steps_power:
  assumes "valid_bank (unat n_neurons) s" "f < unat (g_num_activity_filters s)"
    and "n < unat n_neurons" "read_state s f n = Some v0" "read_filter s f = Some d"
  shows "\<exists>s'. run_steps mul n_neurons k s = Inr s' \<and>
           read_state s' f n = Some (((\<lambda>v. mul v d) ^^ k) v0)"
  using assms
proof (induction k arbitrary: s v0)
  case 0
  then show ?case by simp
next
  case (Suc k)
  from step_valid_run [OF Suc.prems(1), of mul] obtain s1 where
    s1: "filtered_activity_step mul n_neurons s = Inr s1"
      "valid_bank (unat n_neurons) s1"
      "g_num_activity_filters s1 = g_num_activity_filters s"
      "\<forall>f. read_filter s1 f = read_filter s f"
      "\<forall>f d n. f < unat (g_num_activity_filters s) \<longrightarrow> read_filter s f = Some d \<longrightarrow>
              n < unat n_neurons \<longrightarrow>
              read_state s1 f n = map_option (\<lambda>v. mul v d) (read_state s f n)"
    by blast
  have r: "read_state s1 f n = Some (mul v0 d)"
    using s1(5) Suc.prems by simp
  have "\<exists>s'. run_steps mul n_neurons k s1 = Inr s' \<and>
           read_state s' f n = Some (((\<lambda>v. mul v d) ^^ k) (mul v0 d))"
    by (rule Suc.IH [OF s1(2) _ Suc.prems(3) r]) (use s1 Suc.prems in simp_all)
  moreover have "((\<lambda>v. mul v d) ^^ Suc k) v0 = ((\<lambda>v. mul v d) ^^ k) (mul v0 d)"
    by (simp only: funpow_Suc_right o_apply)
  ultimately show ?case
    using s1(1) by (simp del: funpow.simps)
qed


text \<open>
  Every bank reached after a successful initialise for \<open>N < 2 ^ 30\<close> neurons is set up
  for \<open>N\<close> neurons, and so for every smaller count.
\<close>

lemma valid_bank_mono:
  assumes "valid_bank n s" "m \<le> n"
  shows "valid_bank m s"
  using assms unfolding valid_bank_def by fastforce

lemma step_valid_upto:
  assumes "valid_bank n s" "unat m \<le> n" "filtered_activity_step mul m s = Inr s'"
  shows "valid_bank n s'"
proof -
  have vm: "valid_bank (unat m) s" by (rule valid_bank_mono [OF assms(1,2)])
  from step_run [OF vm, of mul] assms(3) have s': "s' = s\<lparr>heap := step_heap mul (unat m) s 0\<rparr>"
    by simp
  have rs: "read_state s' f i \<noteq> None"
    if "f < unat (g_num_activity_filters s)" "i < n" for f i
  proof -
    from valid_bank_reads [OF assms(1) that(1)] that(2) obtain d v where
      dv: "read_filter s f = Some d" "read_state s f i = Some v"
      by blast
    show ?thesis
      unfolding s' using step_read_state [OF vm that(1) dv(1), of mul i] dv(2) by simp
  qed
  show ?thesis
    using assms(1) rs unfolding s'
    by (auto simp: valid_bank_def step_state_vector [OF vm] step_read_filter [OF vm])
qed

lemma write_valid:
  assumes "valid_bank k s" "f < unat (g_num_activity_filters s)" "state_vector s f = Some b"
    and "n < k"
  shows "valid_bank k (s\<lparr>heap := (heap s)[b := (heap s ! b)[n := Val v]]\<rparr>)"
proof -
  let ?s' = "s\<lparr>heap := (heap s)[b := (heap s ! b)[n := Val v]]\<rparr>"
  from valid_bankD [OF assms(1,2)] assms(3) have
    ne: "Some b \<noteq> g_filtered_activities s" "Some b \<noteq> g_activity_filter_params s"
    and cells: "\<forall>i<k. i < length (heap s ! b) \<and> (\<exists>v. heap s ! b ! i = Val v)"
    by auto
  from state_vector_SomeD [OF assms(3)] have bl: "b < length (heap s)" by blast
  have sv: "state_vector ?s' g = state_vector s g" for g
    using ne(1) by (intro state_vector_cong) auto
  have rf: "read_filter ?s' g = read_filter s g" for g
    using ne(2) by (intro read_filter_cong) auto
  have rs: "read_state ?s' g i \<noteq> None"
    if g: "g < unat (g_num_activity_filters s)" and i: "i < k" for g i
  proof -
    from valid_bankD [OF assms(1) g] obtain b' where
      b': "state_vector s g = Some b'"
        "\<forall>i<k. i < length (heap s ! b') \<and> (\<exists>v. heap s ! b' ! i = Val v)"
      by blast
    have sv': "state_vector ?s' g = Some b'" using b'(1) by (simp add: sv)
    show ?thesis
    proof (cases "b' = b")
      case True
      from cells i have "i < length (heap s ! b)" by blast
      moreover from cells i have "\<exists>y. (heap s ! b)[n := Val v] ! i = Val y"
        by (cases "i = n") (auto simp: nth_list_update)
      ultimately show ?thesis
        using bl True by (auto simp: read_state_eq [OF sv'])
    next
      case False
      with b'(2) i show ?thesis
        by (auto simp: read_state_eq [OF sv'])
    qed
  qed
  show ?thesis
    using assms(1) rs by (auto simp: valid_bank_def sv rf)
qed

lemma after_initialise_valid:
  assumes "after_initialise mul N s"
  shows "valid_bank (unat N) s"
  using assms
proof (induction rule: after_initialise.induct)
  case (initialised alloc_ok address s0 s)
  then show ?case by (rule initialise_valid_bank_neurons)
next
  case (stepped s n_neurons s')
  then show ?case by (blast intro: step_valid_upto)
next
  case (written s f b n v)
  then show ?case by (blast intro: write_valid)
qed

lemma after_initialise_ready:
  assumes "after_initialise mul N s" "unat n_neurons \<le> unat N"
  shows "valid_bank (unat n_neurons) s"
  by (rule valid_bank_mono [OF after_initialise_valid [OF assms(1)] assms(2)])

lemma after_initialise_write:
  assumes "after_initialise mul N s" "f < unat (g_num_activity_filters s)"
    and "state_vector s f = Some b" "n < unat N"
    and "s' = s\<lparr>heap := (heap s)[b := (heap s ! b)[n := Val v]]\<rparr>"
  shows "after_initialise mul N s'"
  unfolding assms(5) by (rule after_initialise.written [OF assms(1-4)])

text \<open>The example banks: what initialise and step do on them.\<close>

lemma initialise_overflow_bank:
  "filtered_activity_initialise all_ok one_filter_config 1073741825 (uninitialised [])
     = Inr (True, overflow_bank)"
  by code_simp

lemma step_overflow_bank:
  "filtered_activity_step mul 1073741825 overflow_bank = Inl OutOfBounds"
proof -
  let ?s1 = "overflow_bank\<lparr>heap := [[Val 16384, Val 16384], [Ptr (Some 2)], [Val (mul 0 16384)]]\<rparr>"
  have b0: "step_body mul 0 0 overflow_bank = Inr ?s1"
    by (simp add: overflow_bank_def step_body_def load_ptr_def load_val_def load_def
          store_def bindE_def)
  have b1: "step_body mul 0 (Suc 0) ?s1 = Inl OutOfBounds"
    by (simp add: overflow_bank_def step_body_def load_ptr_def load_val_def load_def
          store_def bindE_def)
  have n1: "neuron_loop mul 1073741825 0 (Suc 0) ?s1 = Inl OutOfBounds"
    by (subst neuron_loop.simps) (simp add: b1)
  have n0: "neuron_loop mul 1073741825 0 0 overflow_bank = Inl OutOfBounds"
    by (subst neuron_loop.simps) (simp add: b0 n1)
  have F: "g_num_activity_filters overflow_bank = 1" by (simp add: overflow_bank_def)
  show ?thesis
    unfolding filtered_activity_step_def
    by (subst filter_loop.simps) (simp add: n0 F)
qed

lemma scenario_start_after: "after_initialise mul 3 scenario_start"
proof -
  have i: "filtered_activity_initialise all_ok scenario_config 3 (uninitialised [])
             = Inr (True, scenario_start)"
    by code_simp
  show ?thesis by (rule after_initialise.initialised [OF i]) simp
qed

lemma scenario_bank_after: "after_initialise mul 3 scenario_bank"
proof -
  note defs = scenario_start_def state_vector_def load_ptr_def load_def bindE_def
  have a0: "after_initialise mul 3 scenario_start" by (rule scenario_start_after)
  have a1: "after_initialise mul 3 (scenario_start\<lparr>heap := [[Val 16384, Val 16384, Val 29491, Val 3277], [Ptr (Some 2), Ptr (Some 3)], [Val 327680, Val 0, Val 0], [Val 0, Val 0, Val 0]]\<rparr>)"
    by (rule after_initialise_write [OF a0, where f = 0 and b = 2 and n = 0 and v = 327680])
       (simp_all add: defs)
  have a2: "after_initialise mul 3 (scenario_start\<lparr>heap := [[Val 16384, Val 16384, Val 29491, Val 3277], [Ptr (Some 2), Ptr (Some 3)], [Val 327680, Val 655360, Val 0], [Val 0, Val 0, Val 0]]\<rparr>)"
    by (rule after_initialise_write [OF a1, where f = 0 and b = 2 and n = 1 and v = 655360])
       (simp_all add: defs)
  have a3: "after_initialise mul 3 (scenario_start\<lparr>heap := [[Val 16384, Val 16384, Val 29491, Val 3277], [Ptr (Some 2), Ptr (Some 3)], [Val 327680, Val 655360, Val 983040], [Val 0, Val 0, Val 0]]\<rparr>)"
    by (rule after_initialise_write [OF a2, where f = 0 and b = 2 and n = 2 and v = 983040])
       (simp_all add: defs)
  have a4: "after_initialise mul 3 (scenario_start\<lparr>heap := [[Val 16384, Val 16384, Val 29491, Val 3277], [Ptr (Some 2), Ptr (Some 3)], [Val 327680, Val 655360, Val 983040], [Val 327680, Val 0, Val 0]]\<rparr>)"
    by (rule after_initialise_write [OF a3, where f = 1 and b = 3 and n = 0 and v = 327680])
       (simp_all add: defs)
  have a5: "after_initialise mul 3 (scenario_start\<lparr>heap := [[Val 16384, Val 16384, Val 29491, Val 3277], [Ptr (Some 2), Ptr (Some 3)], [Val 327680, Val 655360, Val 983040], [Val 327680, Val 655360, Val 0]]\<rparr>)"
    by (rule after_initialise_write [OF a4, where f = 1 and b = 3 and n = 1 and v = 655360])
       (simp_all add: defs)
  have a6: "after_initialise mul 3 (scenario_start\<lparr>heap := [[Val 16384, Val 16384, Val 29491, Val 3277], [Ptr (Some 2), Ptr (Some 3)], [Val 327680, Val 655360, Val 983040], [Val 327680, Val 655360, Val 983040]]\<rparr>)"
    by (rule after_initialise_write [OF a5, where f = 1 and b = 3 and n = 2 and v = 983040])
       (simp_all add: defs)
  from a6 show ?thesis by (simp add: scenario_bank_def)
qed

section \<open>The claims\<close>

text \<open>
  Claim C1 as stated, for every call of step after a successful initialise, fails. With
  one filter and \<open>2 ^ 30 + 1\<close> neurons the byte size of the state vector wraps to 4,
  initialise returns true with a vector of one entry, and the call of step with the same
  neuron count goes past the end of the vector at neuron 1: undefined in C, a fault
  here, and no state in which the entries are the old ones times the decay.
\<close>

theorem step_multiplies_by_decay_counterexample:
  "filtered_activity_initialise all_ok one_filter_config 1073741825 (uninitialised [])
     = Inr (True, overflow_bank) \<and>
   filtered_activity_step accum_mul 1073741825 overflow_bank = Inl OutOfBounds"
  using initialise_overflow_bank step_overflow_bank [of accum_mul] by blast

text \<open>
  Claim C1, as amended. After a successful initialise for \<open>N\<close> neurons with \<open>N < 2 ^ 30\<close>
  (so that \<open>N * sizeof(value_t)\<close> does not wrap), followed by any steps and writes to state
  entries, every call of step with \<open>n_neurons\<close> equal to \<open>N\<close> (or smaller) returns, and for
  every filter \<open>f\<close> below the count and every neuron \<open>n\<close> below \<open>n_neurons\<close> the new entry is
  the old entry multiplied by the \<^verbatim>\<open>filter\<close> field of filter \<open>f\<close>. Nothing else is updated:
  entries from \<open>n_neurons\<close> on, every block that is not a state vector, the globals and
  the trace are as before.
\<close>

theorem step_multiplies_by_decay:
  assumes "after_initialise mul N s" "unat n_neurons \<le> unat N"
  shows "\<exists>s'. filtered_activity_step mul n_neurons s = Inr s' \<and>
           (\<forall>f < unat (g_num_activity_filters s). \<forall>n < unat n_neurons.
              \<exists>v d. read_state s f n = Some v \<and> read_filter s f = Some d \<and>
                    read_state s' f n = Some (mul v d)) \<and>
           (\<forall>f < unat (g_num_activity_filters s). \<forall>n \<ge> unat n_neurons.
              read_state s' f n = read_state s f n) \<and>
           (\<forall>b. (\<forall>f < unat (g_num_activity_filters s). state_vector s f \<noteq> Some b) \<longrightarrow>
              heap s' ! b = heap s ! b) \<and>
           length (heap s') = length (heap s) \<and>
           s' = s\<lparr>heap := heap s'\<rparr>"
  by (rule valid_step_multiplies_by_decay [OF after_initialise_ready [OF assms]])

theorem step_multiplies_by_decay_witness:
  "after_initialise accum_mul 3 scenario_bank \<and>
   unat (3 :: uint32_t) \<le> unat (3 :: uint32_t) \<and>
   (\<exists>s'. filtered_activity_step accum_mul 3 scenario_bank = Inr s' \<and>
         read_state s' 1 2 = Some 884730 \<and>
         s' = scenario_bank\<lparr>heap := heap s'\<rparr>)"
proof -
  have a: "after_initialise accum_mul 3 scenario_bank" by (rule scenario_bank_after)
  have le: "unat (3 :: uint32_t) \<le> unat (3 :: uint32_t)" by simp
  from step_multiplies_by_decay [OF a le] obtain s' where
    s': "filtered_activity_step accum_mul 3 scenario_bank = Inr s'"
    and upd: "\<forall>f < unat (g_num_activity_filters scenario_bank). \<forall>n < unat (3 :: uint32_t).
              \<exists>v d. read_state scenario_bank f n = Some v \<and> read_filter scenario_bank f = Some d \<and>
                    read_state s' f n = Some (accum_mul v d)"
    and rest: "s' = scenario_bank\<lparr>heap := heap s'\<rparr>"
    by blast
  have "(1::nat) < unat (g_num_activity_filters scenario_bank)" "(2::nat) < unat (3 :: uint32_t)"
    by code_simp+
  with upd obtain v d where
    "read_state scenario_bank 1 2 = Some v" "read_filter scenario_bank 1 = Some d"
    "read_state s' 1 2 = Some (accum_mul v d)"
    by blast
  moreover have "read_state scenario_bank 1 2 = Some 983040"
    "read_filter scenario_bank 1 = Some 29491"
    by code_simp+
  moreover have "accum_mul 983040 29491 = 884730" by code_simp
  ultimately have "read_state s' 1 2 = Some 884730" by simp
  with a le s' rest show ?thesis by blast
qed

text \<open>
  Claim C2 as stated, for every neuron count above 0, fails. The size of a state vector
  is \<open>n_neurons * sizeof(value_t)\<close> in 32 bits; with one filter and \<open>2 ^ 30 + 1\<close> neurons
  it wraps to 4 bytes, every allocation can be granted, initialise returns true with a
  vector of one entry, and entry 1, which the claim says reads 0, is outside the vector.
\<close>

theorem initialise_zeroes_state_counterexample:
  "filtered_activity_initialise all_ok one_filter_config 1073741825 (uninitialised [])
     = Inr (True, overflow_bank) \<and>
   (0::nat) < unat (one_filter_config 0) \<and>
   (0::nat) < unat (1073741825 :: uint32_t) \<and>
   (1::nat) < unat (1073741825 :: uint32_t) \<and>
   read_state overflow_bank 0 1 = None"
proof -
  have i: "filtered_activity_initialise all_ok one_filter_config 1073741825 (uninitialised [])
     = Inr (True, overflow_bank)"
    by code_simp
  have f: "(0::nat) < unat (one_filter_config 0)" by (simp add: one_filter_config_def)
  have n: "(0::nat) < unat (1073741825 :: uint32_t)" "(1::nat) < unat (1073741825 :: uint32_t)"
    by simp_all
  have r: "read_state overflow_bank 0 1 = None" by code_simp
  from i f n r show ?thesis by blast
qed

text \<open>
  Claim C2, as amended. After initialise returns true for a configuration with at least
  one filter and a neuron count \<open>n_neurons\<close> below \<open>2 ^ 30\<close> (so that the byte size of a
  vector does not wrap), every entry \<open>n < n_neurons\<close> of every filter's state vector
  reads 0.
\<close>

theorem initialise_zeroes_state:
  assumes "filtered_activity_initialise ok address n_neurons s0 = Inr (True, s')"
    and "0 < unat (address 0)" "unat n_neurons < 2 ^ 30"
  shows "\<forall>f < unat (address 0). \<forall>n < unat n_neurons. read_state s' f n = Some 0"
proof (intro allI impI)
  fix f n assume f: "f < unat (address 0)" and n: "n < unat n_neurons"
  from assms(2) have nz: "address 0 \<noteq> 0" by auto
  note t = initialise_true [OF assms(1) nz]
  from t(2) obtain io where
    s': "s' = (loop_entry address s0)\<lparr>heap := final_heap address n_neurons s0, io_buf := io\<rparr>"
    by blast
  show "read_state s' f n = Some 0"
    unfolding s' using n
    by (simp add: final_read_state [where address = address, OF t(1) f] words_of_value [OF assms(3)])
qed

theorem initialise_zeroes_state_witness:
  "filtered_activity_initialise all_ok scenario_config 3 (uninitialised []) = Inr (True, scenario_start) \<and>
   0 < unat (scenario_config 0) \<and>
   unat (3 :: uint32_t) < 2 ^ 30 \<and>
   read_state scenario_start 0 0 = Some 0 \<and>
   read_state scenario_start 1 2 = Some 0"
proof -
  have i: "filtered_activity_initialise all_ok scenario_config 3 (uninitialised []) = Inr (True, scenario_start)"
    by code_simp
  have p: "0 < unat (scenario_config 0)" by code_simp
  have q: "unat (3 :: uint32_t) < 2 ^ 30" by simp
  have F: "unat (scenario_config 0) = 2" by code_simp
  from initialise_zeroes_state [OF i p q]
  have "read_state scenario_start 0 0 = Some 0" "read_state scenario_start 1 2 = Some 0"
    unfolding F by simp_all
  with i p q show ?thesis by blast
qed

text \<open>
  Claim C3. Whenever initialise returns, it returns false exactly when one of the
  allocations it asks for (none for \<open>F = 0\<close>, otherwise the parameter array, the pointer
  array and one vector per filter) is refused, and true when all are granted. Nothing is
  rolled back on failure: the filter count read from the configuration stays set, and the
  heap holds one more block for each allocation granted before the refusal. Initialise
  does return for every filter count below \<open>2 ^ 29\<close>, that is whenever the byte size of
  the parameter array is representable; for a larger count the arrays are shorter than
  the count, and a run in which enough allocations are granted reaches an access outside
  them, which is undefined.
\<close>

theorem initialise_allocation_failure:
  "(\<forall>b s'. filtered_activity_initialise ok address n_neurons s0 = Inr (b, s') \<longrightarrow>
      (\<not> b \<longleftrightarrow> (\<exists>k < n_allocs address. \<not> ok k)) \<and>
      g_num_activity_filters s' = address 0 \<and>
      length (heap s') = length (heap s0) + granted ok (n_allocs address)) \<and>
   (unat (address 0) < 2 ^ 29 \<longrightarrow>
      (\<exists>b s'. filtered_activity_initialise ok address n_neurons s0 = Inr (b, s')))"
  using initialise_result [of ok address n_neurons s0]
    initialise_total [where address = address and ok = ok and N = n_neurons and ?s0.0 = s0]
  by auto

theorem initialise_allocation_failure_witness:
  "filtered_activity_initialise refuse_fourth scenario_config 3 (uninitialised [])
     = Inr (False, scenario_failed) \<and>
   (\<exists>k < n_allocs scenario_config. \<not> refuse_fourth k) \<and>
   g_num_activity_filters scenario_failed = 2 \<and>
   granted refuse_fourth (n_allocs scenario_config) = 3 \<and>
   length (heap scenario_failed) = 3 \<and>
   unat (scenario_config 0) < 2 ^ 29"
proof -
  have i: "filtered_activity_initialise refuse_fourth scenario_config 3 (uninitialised [])
     = Inr (False, scenario_failed)"
    by code_simp
  have g: "granted refuse_fourth (n_allocs scenario_config) = 3" by code_simp
  have c: "scenario_config 0 = 2" by (simp add: scenario_config_def)
  have h: "length (heap (uninitialised [])) = 0" by (simp add: uninitialised_def)
  have s: "unat (scenario_config 0) < 2 ^ 29" by (simp add: c)
  from initialise_allocation_failure [of refuse_fourth scenario_config 3 "uninitialised []"] i
  have "(\<not> False \<longleftrightarrow> (\<exists>k < n_allocs scenario_config. \<not> refuse_fourth k)) \<and>
        g_num_activity_filters scenario_failed = scenario_config 0 \<and>
        length (heap scenario_failed) =
          length (heap (uninitialised [])) + granted refuse_fourth (n_allocs scenario_config)"
    by blast
  with i g c h s show ?thesis by simp
qed

text \<open>
  Claim C4 as stated, for every starting value after initialise, fails for the same
  reason as C1: after the successful initialise for one filter and \<open>2 ^ 30 + 1\<close> neurons,
  entry 0 of filter 0 holds 0 and the decay is 16384, and already the first of the
  consecutive steps faults, so no value is left in the entry.
\<close>

theorem run_steps_power_counterexample:
  "filtered_activity_initialise all_ok one_filter_config 1073741825 (uninitialised [])
     = Inr (True, overflow_bank) \<and>
   (0::nat) < unat (g_num_activity_filters overflow_bank) \<and>
   (0::nat) < unat (1073741825 :: uint32_t) \<and>
   read_state overflow_bank 0 0 = Some 0 \<and>
   read_filter overflow_bank 0 = Some 16384 \<and>
   run_steps accum_mul 1073741825 1 overflow_bank = Inl OutOfBounds"
proof -
  have f: "(0::nat) < unat (g_num_activity_filters overflow_bank)" by code_simp
  have n: "(0::nat) < unat (1073741825 :: uint32_t)" by simp
  have r: "read_state overflow_bank 0 0 = Some 0" "read_filter overflow_bank 0 = Some 16384"
    by code_simp+
  have "run_steps accum_mul 1073741825 (Suc 0) overflow_bank = Inl OutOfBounds"
    by (simp add: step_overflow_bank)
  then have s: "run_steps accum_mul 1073741825 1 overflow_bank = Inl OutOfBounds" by simp
  from initialise_overflow_bank f n r s show ?thesis by blast
qed

text \<open>
  Claim C4, as amended. After a successful initialise for \<open>N\<close> neurons with \<open>N < 2 ^ 30\<close>,
  followed by any steps and writes to state entries, if entry \<open>n\<close> of filter \<open>f\<close> holds
  \<open>v0\<close> and the decay coefficient of the filter is \<open>d\<close>, then \<open>k\<close> consecutive calls of step
  with \<open>n_neurons\<close> equal to \<open>N\<close> (or smaller, above \<open>n\<close>) return and leave in that entry
  \<open>v0\<close> multiplied by \<open>d\<close> \<open>k\<close> times with the fixed-point multiplication.
\<close>

theorem run_steps_power:
  assumes "after_initialise mul N s" "unat n_neurons \<le> unat N"
    and "f < unat (g_num_activity_filters s)"
    and "n < unat n_neurons" "read_state s f n = Some v0" "read_filter s f = Some d"
  shows "\<exists>s'. run_steps mul n_neurons k s = Inr s' \<and>
           read_state s' f n = Some (((\<lambda>v. mul v d) ^^ k) v0)"
  by (rule valid_run_steps_power [OF after_initialise_ready [OF assms(1,2)] assms(3-6)])

theorem run_steps_power_witness:
  "after_initialise accum_mul 3 scenario_bank \<and>
   unat (3 :: uint32_t) \<le> unat (3 :: uint32_t) \<and>
   (0::nat) < unat (g_num_activity_filters scenario_bank) \<and>
   (0::nat) < unat (3 :: uint32_t) \<and>
   read_state scenario_bank 0 0 = Some 327680 \<and>
   read_filter scenario_bank 0 = Some 16384 \<and>
   (\<exists>s'. run_steps accum_mul 3 2 scenario_bank = Inr s' \<and> read_state s' 0 0 = Some 81920)"
proof -
  have a: "after_initialise accum_mul 3 scenario_bank" by (rule scenario_bank_after)
  have le: "unat (3 :: uint32_t) \<le> unat (3 :: uint32_t)" by simp
  have f: "(0::nat) < unat (g_num_activity_filters scenario_bank)" by code_simp
  have n: "(0::nat) < unat (3 :: uint32_t)" by code_simp
  have r: "read_state scenario_bank 0 0 = Some 327680" by code_simp
  have d: "read_filter scenario_bank 0 = Some 16384" by code_simp
  have p: "((\<lambda>v. accum_mul v 16384) ^^ 2) 327680 = 81920" by code_simp
  from run_steps_power [OF a le f n r d, of 2] p a le f n r d show ?thesis
    by simp
qed

text \<open>
  Claim C5. On a bank set up for \<open>n_neurons\<close>: the update of one entry (one run of the
  loop body, for filter \<open>f\<close> and neuron \<open>n\<close>) leaves every other entry of every filter as
  it was; the update of one filter (one run of the inner loop) leaves the entries of
  every other filter as they were; and the value step leaves in entry \<open>n\<close> of filter \<open>f\<close>
  depends on nothing but the old value of that entry and the decay coefficient of that
  filter: a second bank that agrees on these two, whatever else differs, agrees on the
  entry after a step.
\<close>

theorem step_entry_independent:
  assumes "valid_bank (unat n_neurons) s" "f < unat (g_num_activity_filters s)"
    and "n < unat n_neurons"
  shows "(\<exists>s1. step_body mul f n s = Inr s1 \<and>
            (\<forall>f' n'. f' < unat (g_num_activity_filters s) \<longrightarrow> (f' \<noteq> f \<or> n' \<noteq> n) \<longrightarrow>
               read_state s1 f' n' = read_state s f' n')) \<and>
         (\<exists>s1. neuron_loop mul n_neurons f 0 s = Inr s1 \<and>
            (\<forall>f' n'. f' < unat (g_num_activity_filters s) \<longrightarrow> f' \<noteq> f \<longrightarrow>
               read_state s1 f' n' = read_state s f' n')) \<and>
         (\<forall>t. valid_bank (unat n_neurons) t \<longrightarrow> f < unat (g_num_activity_filters t) \<longrightarrow>
            read_state t f n = read_state s f n \<longrightarrow> read_filter t f = read_filter s f \<longrightarrow>
            (\<exists>s' t'. filtered_activity_step mul n_neurons s = Inr s' \<and>
                     filtered_activity_step mul n_neurons t = Inr t' \<and>
                     read_state s' f n = read_state t' f n))"
proof (intro conjI allI impI)
  show "\<exists>s1. step_body mul f n s = Inr s1 \<and>
            (\<forall>f' n'. f' < unat (g_num_activity_filters s) \<longrightarrow> (f' \<noteq> f \<or> n' \<noteq> n) \<longrightarrow>
               read_state s1 f' n' = read_state s f' n')"
    by (rule step_body_frame [OF assms])
  show "\<exists>s1. neuron_loop mul n_neurons f 0 s = Inr s1 \<and>
            (\<forall>f' n'. f' < unat (g_num_activity_filters s) \<longrightarrow> f' \<noteq> f \<longrightarrow>
               read_state s1 f' n' = read_state s f' n')"
    by (rule neuron_loop_frame [OF assms(1,2)])
next
  fix t
  assume t: "valid_bank (unat n_neurons) t" "f < unat (g_num_activity_filters t)"
    "read_state t f n = read_state s f n" "read_filter t f = read_filter s f"
  from valid_bank_reads(1) [OF assms(1,2)] obtain d where d: "read_filter s f = Some d" by blast
  with t(4) have d': "read_filter t f = Some d" by simp
  from step_valid_run [OF assms(1), of mul] obtain s' where
    s': "filtered_activity_step mul n_neurons s = Inr s'"
      "read_state s' f n = map_option (\<lambda>v. mul v d) (read_state s f n)"
    using assms(2,3) d by blast
  from step_valid_run [OF t(1), of mul] obtain t' where
    t': "filtered_activity_step mul n_neurons t = Inr t'"
      "read_state t' f n = map_option (\<lambda>v. mul v d) (read_state t f n)"
    using t(2) assms(3) d' by blast
  from s' t' t(3)
  show "\<exists>s' t'. filtered_activity_step mul n_neurons s = Inr s' \<and>
                 filtered_activity_step mul n_neurons t = Inr t' \<and>
                 read_state s' f n = read_state t' f n"
    by simp
qed

theorem step_entry_independent_witness:
  "valid_bank (unat (3 :: uint32_t)) scenario_bank \<and>
   (1::nat) < unat (g_num_activity_filters scenario_bank) \<and>
   (2::nat) < unat (3 :: uint32_t) \<and>
   (\<exists>s1. step_body accum_mul 1 2 scenario_bank = Inr s1 \<and>
         read_state s1 1 0 = read_state scenario_bank 1 0 \<and>
         read_state s1 0 2 = read_state scenario_bank 0 2) \<and>
   (\<exists>s1. neuron_loop accum_mul 3 1 0 scenario_bank = Inr s1 \<and>
         read_state s1 0 2 = read_state scenario_bank 0 2) \<and>
   valid_bank (unat (3 :: uint32_t)) scenario_other \<and>
   (1::nat) < unat (g_num_activity_filters scenario_other) \<and>
   read_state scenario_other 1 2 = read_state scenario_bank 1 2 \<and>
   read_filter scenario_other 1 = read_filter scenario_bank 1 \<and>
   read_state scenario_other 1 0 \<noteq> read_state scenario_bank 1 0 \<and>
   read_state scenario_other 0 2 \<noteq> read_state scenario_bank 0 2 \<and>
   read_filter scenario_other 0 \<noteq> read_filter scenario_bank 0 \<and>
   (\<exists>s' t'. filtered_activity_step accum_mul 3 scenario_bank = Inr s' \<and>
            filtered_activity_step accum_mul 3 scenario_other = Inr t' \<and>
            read_state s' 1 2 = read_state t' 1 2)"
proof -
  have v: "valid_bank (unat (3 :: uint32_t)) scenario_bank" by code_simp
  have w: "valid_bank (unat (3 :: uint32_t)) scenario_other" by code_simp
  have f: "(1::nat) < unat (g_num_activity_filters scenario_bank)" by code_simp
  have f0: "(0::nat) < unat (g_num_activity_filters scenario_bank)" by code_simp
  have g: "(1::nat) < unat (g_num_activity_filters scenario_other)" by code_simp
  have n: "(2::nat) < unat (3 :: uint32_t)" by code_simp
  have r: "read_state scenario_other 1 2 = read_state scenario_bank 1 2" by code_simp
  have d: "read_filter scenario_other 1 = read_filter scenario_bank 1" by code_simp
  have x: "read_state scenario_other 1 0 \<noteq> read_state scenario_bank 1 0"
    "read_state scenario_other 0 2 \<noteq> read_state scenario_bank 0 2"
    "read_filter scenario_other 0 \<noteq> read_filter scenario_bank 0"
    by code_simp+
  note t = step_entry_independent [OF v f n, of accum_mul]
  from t obtain s1 where
    a: "step_body accum_mul 1 2 scenario_bank = Inr s1"
       "\<forall>f' n'. f' < unat (g_num_activity_filters scenario_bank) \<longrightarrow> (f' \<noteq> 1 \<or> n' \<noteq> 2) \<longrightarrow>
               read_state s1 f' n' = read_state scenario_bank f' n'"
    by blast
  from a(2) f f0 have a': "read_state s1 1 0 = read_state scenario_bank 1 0"
    "read_state s1 0 2 = read_state scenario_bank 0 2"
    by simp_all
  from t obtain s2 where
    b: "neuron_loop accum_mul 3 1 0 scenario_bank = Inr s2"
       "\<forall>f' n'. f' < unat (g_num_activity_filters scenario_bank) \<longrightarrow> f' \<noteq> 1 \<longrightarrow>
               read_state s2 f' n' = read_state scenario_bank f' n'"
    by blast
  from b(2) f0 have b': "read_state s2 0 2 = read_state scenario_bank 0 2" by simp
  from t w g r d have
    c: "\<exists>s' t'. filtered_activity_step accum_mul 3 scenario_bank = Inr s' \<and>
            filtered_activity_step accum_mul 3 scenario_other = Inr t' \<and>
            read_state s' 1 2 = read_state t' 1 2"
    by blast
  from v f n a(1) a' b(1) b' w g r d x c show ?thesis by blast
qed

text \<open>
  Claim C6. For a configuration whose first word is 0, initialise called on the
  uninitialised globals returns true, allocates nothing (the heap is unchanged) and
  leaves both array pointers NULL; after it every call of step, and every run of calls,
  with any neuron count returns the bank unchanged.
\<close>

theorem initialise_no_filters:
  assumes "address 0 = 0"
  shows "\<exists>s'. filtered_activity_initialise ok address n_neurons (uninitialised h) = Inr (True, s') \<and>
           heap s' = h \<and>
           g_activity_filter_params s' = None \<and>
           g_filtered_activities s' = None \<and>
           g_num_activity_filters s' = 0 \<and>
           (\<forall>m. filtered_activity_step mul m s' = Inr s') \<and>
           (\<forall>m k. run_steps mul m k s' = Inr s')"
  using assms
  by (simp add: initialise_zero step_no_filters run_steps_no_filters uninitialised_def)

theorem initialise_no_filters_witness:
  "empty_config 0 = 0 \<and>
   (\<exists>s'. filtered_activity_initialise all_ok empty_config 5 (uninitialised []) = Inr (True, s') \<and>
         heap s' = [] \<and> g_activity_filter_params s' = None \<and> g_filtered_activities s' = None \<and>
         filtered_activity_step accum_mul 5 s' = Inr s' \<and>
         run_steps accum_mul 9 4 s' = Inr s')"
proof -
  have z: "empty_config 0 = 0" by (simp add: empty_config_def)
  from initialise_no_filters [where address = empty_config, OF z, of all_ok 5 "[]" accum_mul] z
  show ?thesis by blast
qed

text \<open>
  Claim C7. After initialise returns true for a configuration with at least one filter,
  the stored filter count is word 0 and, for every filter \<open>f\<close> below it, the stored
  record is the \<open>f\<close>-th record of the configuration counted from word 1: its
  \<^verbatim>\<open>filter\<close> field is word \<open>1 + 2 f\<close> and its \<^verbatim>\<open>n_filter\<close> field is word \<open>2 + 2 f\<close>, bit
  for bit.
\<close>

theorem initialise_copies_parameters:
  assumes "filtered_activity_initialise ok address n_neurons s0 = Inr (True, s')"
    and "0 < unat (address 0)"
  shows "g_num_activity_filters s' = address 0 \<and>
         (\<forall>f < unat (address 0).
            read_filter s' f = Some (address (1 + 2 * f)) \<and>
            read_n_filter s' f = Some (address (2 + 2 * f)) \<and>
            read_params s' f =
              Some \<lparr>filter_val = address (1 + 2 * f), n_filter = address (2 + 2 * f)\<rparr>)"
proof -
  from assms(2) have nz: "address 0 \<noteq> 0" by auto
  note t = initialise_true [OF assms(1) nz]
  from t(2) obtain io where
    s': "s' = (loop_entry address s0)\<lparr>heap := final_heap address n_neurons s0, io_buf := io\<rparr>"
    by blast
  have "read_filter s' f = Some (address (1 + 2 * f)) \<and>
        read_n_filter s' f = Some (address (2 + 2 * f)) \<and>
        read_params s' f =
          Some \<lparr>filter_val = address (1 + 2 * f), n_filter = address (2 + 2 * f)\<rparr>"
    if "f < unat (address 0)" for f
    unfolding s' read_params_def
    using final_read_filter [where address = address and ?s0.0 = s0 and N = n_neurons and io = io, OF t(1) that]
    by simp
  moreover have "g_num_activity_filters s' = address 0"
    unfolding s' by (simp add: loop_entry_def)
  ultimately show ?thesis by blast
qed

theorem initialise_copies_parameters_witness:
  "filtered_activity_initialise all_ok scenario_config 3 (uninitialised []) = Inr (True, scenario_start) \<and>
   0 < unat (scenario_config 0) \<and>
   g_num_activity_filters scenario_start = 2 \<and>
   read_params scenario_start 0 = Some \<lparr>filter_val = 16384, n_filter = 16384\<rparr> \<and>
   read_params scenario_start 1 = Some \<lparr>filter_val = 29491, n_filter = 3277\<rparr>"
proof -
  have i: "filtered_activity_initialise all_ok scenario_config 3 (uninitialised []) = Inr (True, scenario_start)"
    by code_simp
  have p: "0 < unat (scenario_config 0)" by code_simp
  have F: "unat (scenario_config 0) = 2" by code_simp
  have c: "scenario_config 0 = 2" "scenario_config 1 = 16384" "scenario_config 2 = 16384"
    "scenario_config 3 = 29491" "scenario_config 4 = 3277"
    by (simp_all add: scenario_config_def)
  have lt: "(0::nat) < unat (scenario_config 0)" "(1::nat) < unat (scenario_config 0)"
    unfolding F by simp_all
  from initialise_copies_parameters [OF i p] have
    g: "g_num_activity_filters scenario_start = scenario_config 0"
    and a: "\<forall>f < unat (scenario_config 0).
            read_filter scenario_start f = Some (scenario_config (1 + 2 * f)) \<and>
            read_n_filter scenario_start f = Some (scenario_config (2 + 2 * f)) \<and>
            read_params scenario_start f =
              Some \<lparr>filter_val = scenario_config (1 + 2 * f), n_filter = scenario_config (2 + 2 * f)\<rparr>"
    by blast+
  from a lt(1) have r0: "read_params scenario_start 0 =
      Some \<lparr>filter_val = scenario_config (1 + 2 * 0), n_filter = scenario_config (2 + 2 * 0)\<rparr>"
    by blast
  from a lt(2) have r1: "read_params scenario_start 1 =
      Some \<lparr>filter_val = scenario_config (1 + 2 * 1), n_filter = scenario_config (2 + 2 * 1)\<rparr>"
    by blast
  have e: "(1::nat) + 2 * 0 = 1" "(2::nat) + 2 * 0 = 2" "(1::nat) + 2 * 1 = 3" "(2::nat) + 2 * 1 = 4"
    by simp_all
  from i p g r0 r1 show ?thesis
    unfolding e c by blast
qed




text \<open>
  Claim C9. The state step produces does not depend on the \<^verbatim>\<open>n_filter\<close> fields: two
  banks with the same filter count, the same decay coefficients and the same state
  entries, whatever their \<^verbatim>\<open>n_filter\<close> fields, have the same state entries after a step.
\<close>

theorem step_ignores_n_filter:
  assumes "valid_bank (unat n_neurons) s" "valid_bank (unat n_neurons) t"
    and "g_num_activity_filters s = g_num_activity_filters t"
    and "\<forall>f < unat (g_num_activity_filters s). read_filter s f = read_filter t f"
    and "\<forall>f < unat (g_num_activity_filters s). \<forall>n < unat n_neurons.
           read_state s f n = read_state t f n"
  shows "\<exists>s' t'. filtered_activity_step mul n_neurons s = Inr s' \<and>
           filtered_activity_step mul n_neurons t = Inr t' \<and>
           (\<forall>f < unat (g_num_activity_filters s). \<forall>n < unat n_neurons.
              read_state s' f n = read_state t' f n)"
proof -
  from step_valid_run [OF assms(1), of mul] obtain s' where
    s': "filtered_activity_step mul n_neurons s = Inr s'"
      "\<forall>f d n. f < unat (g_num_activity_filters s) \<longrightarrow> read_filter s f = Some d \<longrightarrow>
              n < unat n_neurons \<longrightarrow>
              read_state s' f n = map_option (\<lambda>v. mul v d) (read_state s f n)"
    by blast
  from step_valid_run [OF assms(2), of mul] obtain t' where
    t': "filtered_activity_step mul n_neurons t = Inr t'"
      "\<forall>f d n. f < unat (g_num_activity_filters t) \<longrightarrow> read_filter t f = Some d \<longrightarrow>
              n < unat n_neurons \<longrightarrow>
              read_state t' f n = map_option (\<lambda>v. mul v d) (read_state t f n)"
    by blast
  have "read_state s' f n = read_state t' f n"
    if "f < unat (g_num_activity_filters s)" "n < unat n_neurons" for f n
  proof -
    from valid_bank_reads(1) [OF assms(1) that(1)] obtain d where d: "read_filter s f = Some d"
      by blast
    with assms(4) that(1) have d': "read_filter t f = Some d" by simp
    from s'(2) that d have "read_state s' f n = map_option (\<lambda>v. mul v d) (read_state s f n)"
      by blast
    moreover from t'(2) that d' assms(3)
    have "read_state t' f n = map_option (\<lambda>v. mul v d) (read_state t f n)"
      by simp
    ultimately show ?thesis using assms(5) that by simp
  qed
  with s'(1) t'(1) show ?thesis by blast
qed

theorem step_ignores_n_filter_witness:
  "valid_bank (unat (3 :: uint32_t)) scenario_bank \<and>
   valid_bank (unat (3 :: uint32_t)) scenario_twin \<and>
   g_num_activity_filters scenario_bank = g_num_activity_filters scenario_twin \<and>
   read_filter scenario_bank 0 = read_filter scenario_twin 0 \<and>
   read_filter scenario_bank 1 = read_filter scenario_twin 1 \<and>
   read_n_filter scenario_bank 0 \<noteq> read_n_filter scenario_twin 0 \<and>
   read_n_filter scenario_bank 1 \<noteq> read_n_filter scenario_twin 1 \<and>
   (\<exists>s' t'. filtered_activity_step accum_mul 3 scenario_bank = Inr s' \<and>
            filtered_activity_step accum_mul 3 scenario_twin = Inr t' \<and>
            read_state s' 0 0 = read_state t' 0 0 \<and>
            read_state s' 1 2 = read_state t' 1 2)"
proof -
  have v: "valid_bank (unat (3 :: uint32_t)) scenario_bank" by code_simp
  have w: "valid_bank (unat (3 :: uint32_t)) scenario_twin" by code_simp
  have c: "g_num_activity_filters scenario_bank = g_num_activity_filters scenario_twin"
    by code_simp
  have F: "unat (g_num_activity_filters scenario_bank) = 2" by code_simp
  have N: "unat (3 :: uint32_t) = 3" by code_simp
  have "\<forall>f \<in> set [0..<2]. read_filter scenario_bank f = read_filter scenario_twin f"
    by code_simp
  then have d: "\<forall>f < unat (g_num_activity_filters scenario_bank).
                 read_filter scenario_bank f = read_filter scenario_twin f"
    unfolding F by simp
  have "\<forall>f \<in> set [0..<2]. \<forall>n \<in> set [0..<3].
          read_state scenario_bank f n = read_state scenario_twin f n"
    by code_simp
  then have r: "\<forall>f < unat (g_num_activity_filters scenario_bank). \<forall>n < unat (3 :: uint32_t).
                 read_state scenario_bank f n = read_state scenario_twin f n"
    unfolding F N by simp
  have x: "read_n_filter scenario_bank 0 \<noteq> read_n_filter scenario_twin 0"
    "read_n_filter scenario_bank 1 \<noteq> read_n_filter scenario_twin 1"
    by code_simp+
  from step_ignores_n_filter [OF v w c d r, of accum_mul] obtain s' t' where
    st: "filtered_activity_step accum_mul 3 scenario_bank = Inr s'"
      "filtered_activity_step accum_mul 3 scenario_twin = Inr t'"
      "\<forall>f < unat (g_num_activity_filters scenario_bank). \<forall>n < unat (3 :: uint32_t).
         read_state s' f n = read_state t' f n"
    by blast
  from st(3) have "read_state s' 0 0 = read_state t' 0 0" "read_state s' 1 2 = read_state t' 1 2"
    unfolding F N by simp_all
  with st(1,2) v w c d x F show ?thesis by auto
qed

text \<open>
  Claim C10. Step called on the globals as the C file initialises them (count 0, both
  pointers NULL), with any neuron count and any heap, returns without a fault (no loop
  iteration, no access through a pointer) and leaves the bank as it was.
\<close>

theorem step_uninitialised:
  "filtered_activity_step mul n_neurons (uninitialised h) = Inr (uninitialised h)"
  unfolding filtered_activity_step_def
  by (subst filter_loop.simps) (simp add: uninitialised_def)

theorem step_uninitialised_witness:
  "filtered_activity_step accum_mul 7 (uninitialised []) = Inr (uninitialised [])"
  by (rule step_uninitialised)

end
